theory Spec2Isabelle
  imports Main "HOL-Library.AList" "HOL-Library.Char_ord" "HOL-Library.List_Lexorder"
    "HOL-Library.Product_Lexorder"
begin

section \<open>Strings\<close>

text \<open>
  A Python string is modelled as \<open>string\<close>, the list of its code points, each a \<open>char\<close>:
  these are the strings whose code points are all below 256 (ASCII and the Latin-1
  supplement). Two strings compare by the lexicographic order of their code points
  (\<open>List_Lexorder\<close> over \<open>Char_ord\<close>), as in Python. The helpers below are the string
  methods the sources call.
\<close>

text \<open>\<^verbatim>\<open>x.count("/")\<close> for a one-character needle.\<close>

definition str_count :: "char \<Rightarrow> string \<Rightarrow> nat" where
  "str_count d s = length (filter (\<lambda>c. c = d) s)"

text \<open>\<^verbatim>\<open>s.split("/")\<close>: never empty, \<^verbatim>\<open>"".split("/") == [""]\<close>.\<close>

fun split_on :: "char \<Rightarrow> string \<Rightarrow> string list" where
  "split_on d [] = [[]]"
| "split_on d (c # cs) =
     (if c = d then [] # split_on d cs
      else (case split_on d cs of [] \<Rightarrow> [[c]] | p # ps \<Rightarrow> (c # p) # ps))"

text \<open>\<^verbatim>\<open>"/".join(parts)\<close>.\<close>

fun join_with :: "char \<Rightarrow> string list \<Rightarrow> string" where
  "join_with d [] = []"
| "join_with d [p] = p"
| "join_with d (p # q # ps) = p @ d # join_with d (q # ps)"

text \<open>\<^verbatim>\<open>s.startswith(pat)\<close> and \<^verbatim>\<open>pat in s\<close> (substring test).\<close>

definition starts_with :: "string \<Rightarrow> string \<Rightarrow> bool" where
  "starts_with pat s = (take (length pat) s = pat)"

fun str_in :: "string \<Rightarrow> string \<Rightarrow> bool" where
  "str_in pat [] = (pat = [])"
| "str_in pat (c # cs) = (starts_with pat (c # cs) \<or> str_in pat cs)"

text \<open>\<^verbatim>\<open>s.split(sep, 1)[1]\<close> for a non-empty \<open>sep\<close> that occurs in \<open>s\<close>: the text after
  the first occurrence; \<open>None\<close> when \<open>sep\<close> does not occur.\<close>

fun after_first :: "string \<Rightarrow> string \<Rightarrow> string option" where
  "after_first sep [] = None"
| "after_first sep (c # cs) =
     (if starts_with sep (c # cs) then Some (drop (length sep) (c # cs))
      else after_first sep cs)"

text \<open>\<^verbatim>\<open>s.replace(pat, "")\<close> for a non-empty \<open>pat\<close>: occurrences are removed left to right.\<close>

fun remove_all :: "string \<Rightarrow> string \<Rightarrow> string" where
  "remove_all pat [] = []"
| "remove_all pat (c # cs) =
     (if pat \<noteq> [] \<and> starts_with pat (c # cs) then remove_all pat (drop (length pat - 1) cs)
      else c # remove_all pat cs)"

text \<open>
  \<^verbatim>\<open>s.lower()\<close>. Among the code points below 256 Python lowercases the letters \<open>A\<close> to
  \<open>Z\<close> (65 to 90) and the Latin-1 capitals (192 to 214 and 216 to 222; 215 is the
  multiplication sign), each to the code point 32 above it, and leaves every other code
  point as it is.
\<close>

definition lower_char :: "char \<Rightarrow> char" where
  "lower_char c =
     (let n = of_char c :: nat
      in if (65 \<le> n \<and> n \<le> 90) \<or> (192 \<le> n \<and> n \<le> 214) \<or> (216 \<le> n \<and> n \<le> 222)
         then char_of (n + 32) else c)"

definition lower :: "string \<Rightarrow> string" where
  "lower s = map lower_char s"

text \<open>\<^verbatim>\<open>xs.index(x)\<close> for an \<open>x\<close> that occurs in \<open>xs\<close>: the position of its first occurrence.\<close>

definition index_of :: "'a list \<Rightarrow> 'a \<Rightarrow> nat" where
  "index_of xs x = length (takeWhile (\<lambda>y. y \<noteq> x) xs)"

section \<open>The taxonomy index and the path resolver\<close>

text \<open>
  \<^verbatim>\<open>self.taxonomy\<close> of \<^verbatim>\<open>SemWikiParser\<close>: three dictionaries. \<open>current_context\<close> is
  \<^verbatim>\<open>str(self.current_context)\<close> when the parser has a context (a \<^verbatim>\<open>Path\<close>, always truthy),
  \<open>None\<close> otherwise.
\<close>

record taxonomy =
  search_to_classification :: "string \<rightharpoonup> string"
  classification_to_search :: "string \<rightharpoonup> string"
  aliases :: "string \<rightharpoonup> string list"

definition empty_taxonomy :: taxonomy where
  "empty_taxonomy =
     \<lparr>search_to_classification = Map.empty, classification_to_search = Map.empty,
      aliases = Map.empty\<rparr>"

text \<open>\<^verbatim>\<open>_get_context_classification\<close>, called only with a context.\<close>

definition get_context_classification :: "string option \<Rightarrow> string" where
  "get_context_classification current_context =
     (case current_context of
        None \<Rightarrow> []
      | Some rel_path \<Rightarrow>
          remove_all ''.md''
            (case after_first ''concepts/'' rel_path of Some r \<Rightarrow> r | None \<Rightarrow> rel_path))"

text \<open>
  \<^verbatim>\<open>sorted(is_a_values, key=lambda x: x.count("/"), reverse=True)\<close>: Python's sort is stable
  also with \<^verbatim>\<open>reverse=True\<close>, so it is the stable sort by descending key.
\<close>

definition sorted_paths :: "string list \<Rightarrow> string list" where
  "sorted_paths is_a_values = sort_key (\<lambda>x. - int (str_count CHR ''/'' x)) is_a_values"

text \<open>\<^verbatim>\<open>concept_name.split("/")[-1]\<close>.\<close>

definition concept_base :: "string \<Rightarrow> string" where
  "concept_base concept_name = last (split_on CHR ''/'' concept_name)"

text \<open>\<^verbatim>\<open>f"{path}/{concept_base}"\<close>.\<close>

definition path_under :: "string \<Rightarrow> string \<Rightarrow> string" where
  "path_under path base = path @ CHR ''/'' # base"

text \<open>
  \<^verbatim>\<open>resolve_reference\<close>. The taxonomy is passed in and returned; the result triple is
  \<open>(search_path, classification_path, all_paths)\<close>. \<^verbatim>\<open>if is_a_values:\<close> is false for
  \<^verbatim>\<open>None\<close> and for the empty list.
\<close>

definition resolve_reference ::
  "taxonomy \<Rightarrow> string option \<Rightarrow> string \<Rightarrow> string list option
    \<Rightarrow> taxonomy \<times> string \<times> string \<times> string list" where
  "resolve_reference tax current_context concept_name is_a_values =
     (case search_to_classification tax concept_name of
        Some classification_path \<Rightarrow>
          (tax, concept_name, classification_path, [classification_path])
      | None \<Rightarrow>
          (if is_a_values \<noteq> None \<and> is_a_values \<noteq> Some [] then
             (let vals = (case is_a_values of Some vs \<Rightarrow> vs | None \<Rightarrow> []);
                  primary_classification = hd (sorted_paths vals);
                  base = concept_base concept_name;
                  classification_path = path_under primary_classification base;
                  all_paths = map (\<lambda>path. path_under path base) vals;
                  tax1 = tax\<lparr>search_to_classification :=
                              (search_to_classification tax)(concept_name \<mapsto> classification_path),
                            classification_to_search :=
                              (classification_to_search tax)(classification_path \<mapsto> concept_name)\<rparr>;
                  tax2 = (if length all_paths > 1
                          then tax1\<lparr>aliases := (aliases tax1)(concept_name \<mapsto> tl all_paths)\<rparr>
                          else tax1)
              in (tax2, concept_name, classification_path, all_paths))
           else
             (case current_context of
                Some ctx \<Rightarrow>
                  (if CHR ''/'' \<in> set ctx then
                     (let context_path = get_context_classification current_context;
                          classification_path = path_under context_path (concept_base concept_name)
                      in (tax, concept_name, classification_path, [classification_path]))
                   else (tax, concept_name, concept_name, [concept_name]))
              | None \<Rightarrow> (tax, concept_name, concept_name, [concept_name]))))"

text \<open>The components of what \<open>resolve_reference\<close> returns.\<close>

definition res_taxonomy :: "taxonomy \<times> string \<times> string \<times> string list \<Rightarrow> taxonomy" where
  "res_taxonomy r = fst r"

definition res_classification :: "taxonomy \<times> string \<times> string \<times> string list \<Rightarrow> string" where
  "res_classification r = fst (snd (snd r))"

definition res_all_paths :: "taxonomy \<times> string \<times> string \<times> string list \<Rightarrow> string list" where
  "res_all_paths r = snd (snd (snd r))"

text \<open>The taxonomy after \<^verbatim>\<open>resolve_reference("z", ["x/y", "x"])\<close> on a fresh parser.\<close>

definition tax_z :: taxonomy where
  "tax_z = res_taxonomy (resolve_reference empty_taxonomy None ''z'' (Some [''x/y'', ''x'']))"

section \<open>The graph store\<close>

text \<open>
  \<^verbatim>\<open>self.graph\<close>: the node dictionary, in insertion order (the search engine iterates
  over it), and the edge list. An edge carries the keys \<^verbatim>\<open>id\<close>, \<^verbatim>\<open>source\<close>,
  \<^verbatim>\<open>relation\<close>, \<^verbatim>\<open>target\<close> and \<^verbatim>\<open>source_file\<close>; a node its \<^verbatim>\<open>id\<close>, its
  \<^verbatim>\<open>classification_path\<close> (the parser always sets it, the search engine reads it with a
  default), its \<^verbatim>\<open>sources\<close> and its \<^verbatim>\<open>relations\<close>, a dictionary from relation type to
  the list of targets. The time stamps (\<^verbatim>\<open>created\<close>), the constant \<^verbatim>\<open>type\<close> and the
  empty \<^verbatim>\<open>properties\<close> play no part in any operation and are left out.
\<close>

record edge =
  edge_id :: string
  source :: string
  relation :: string
  target :: string
  source_file :: string

record node =
  node_id :: string
  classification_path :: "string option"
  sources :: "string list"
  relations :: "string \<rightharpoonup> string list"

record graph =
  nodes :: "(string \<times> node) list"
  edges :: "edge list"

definition empty_graph :: graph where
  "empty_graph = \<lparr>nodes = [], edges = []\<rparr>"

text \<open>\<^verbatim>\<open>self.relation_inverses\<close>, the relation table, and \<^verbatim>\<open>self.relation_inverses.get\<close>.\<close>

definition relation_table :: "(string \<times> string) list" where
  "relation_table =
     [(''is_a'', ''has_instance''), (''has_instance'', ''is_a''),
      (''part_of'', ''has_part''), (''has_part'', ''part_of''),
      (''located_in'', ''location_of''), (''location_of'', ''located_in''),
      (''created_by'', ''creator_of''), (''creator_of'', ''created_by''),
      (''precedes'', ''follows''), (''follows'', ''precedes''),
      (''causes'', ''caused_by''), (''caused_by'', ''causes''),
      (''enables'', ''enabled_by''), (''enabled_by'', ''enables''),
      (''regulates'', ''regulated_by''), (''regulated_by'', ''regulates''),
      (''offers'', ''offered_by''), (''offered_by'', ''offers'')]"

definition relation_inverses :: "string \<rightharpoonup> string" where
  "relation_inverses = map_of relation_table"

text \<open>
  Python's truth value of an optional list (\<^verbatim>\<open>if result:\<close>, \<^verbatim>\<open>if cycle:\<close>): false for
  \<^verbatim>\<open>None\<close> and for the empty list.
\<close>

definition truthy :: "'a list option \<Rightarrow> bool" where
  "truthy r = (case r of None \<Rightarrow> False | Some c \<Rightarrow> c \<noteq> [])"

subsection \<open>The cycle detector\<close>

text \<open>
  \<^verbatim>\<open>is_a_graph\<close> of \<^verbatim>\<open>detect_circular_reference\<close> maps a node to the set of its
  \<open>is_a\<close> targets, the proposed edge included. Here it is the list of its (source, target)
  pairs. The loop \<^verbatim>\<open>for neighbor in is_a_graph[node]\<close> iterates over a Python set, whose
  order no program can rely on: the order is a parameter of the model, a rank function for
  every node, and the neighbours of a node are visited by ascending rank. Every order of
  every neighbour set arises from some rank function, and every theorem below holds for all
  of them.
\<close>

type_synonym iteration_order = "string \<Rightarrow> string \<Rightarrow> nat"

definition is_a_graph :: "edge list \<Rightarrow> string \<Rightarrow> string \<Rightarrow> (string \<times> string) list" where
  "is_a_graph es src tgt =
     map (\<lambda>e. (source e, target e)) (filter (\<lambda>e. relation e = ''is_a'') es) @ [(src, tgt)]"

definition neighbors :: "iteration_order \<Rightarrow> (string \<times> string) list \<Rightarrow> string \<Rightarrow> string list" where
  "neighbors rank G node =
     sort_key (rank node) (remdups (map snd (filter (\<lambda>p. fst p = node) G)))"

text \<open>
  Python bounds the depth of its call stack: a call that would exceed
  \<^verbatim>\<open>sys.getrecursionlimit()\<close> raises \<^verbatim>\<open>RecursionError\<close> instead of running. The limit
  is 1000 unless the program changes it, and the sources never do. The nested function
  \<^verbatim>\<open>dfs\<close> is the only recursive function of the sources, and no exception is caught
  anywhere in them, so the error ends every caller.
\<close>

datatype error = RecursionError

definition recursion_limit :: nat where
  "recursion_limit = 1000"

text \<open>
  The nested function \<^verbatim>\<open>dfs(node, path_stack)\<close> with its loop over the neighbours.
  \<open>frames\<close> is the number of nested activations of \<^verbatim>\<open>dfs\<close> the interpreter still allows:
  the recursion limit less the frames the callers hold, so at most \<open>recursion_limit\<close>.
  Every activation takes one frame, and a call for which none is left raises. The closure
  variable \<^verbatim>\<open>visited\<close> is passed in and returned. \<^verbatim>\<open>path_stack\<close> is the same before and
  after a call that returns \<^verbatim>\<open>None\<close> (the call appends the node and pops it), so it is
  passed down only.
\<close>

fun dfs ::
    "nat \<Rightarrow> iteration_order \<Rightarrow> (string \<times> string) list \<Rightarrow> string \<Rightarrow> string list \<Rightarrow> string set
      \<Rightarrow> error + string list option \<times> string set"
  and dfs_neighbors ::
    "nat \<Rightarrow> iteration_order \<Rightarrow> (string \<times> string) list \<Rightarrow> string list \<Rightarrow> string list
      \<Rightarrow> string set \<Rightarrow> error + string list option \<times> string set"
where
  "dfs 0 rank G node path_stack visited = Inl RecursionError"
| "dfs (Suc frames) rank G node path_stack visited =
     (if node \<in> set path_stack then
        Inr (Some (drop (index_of path_stack node) path_stack @ [node]), visited)
      else if node \<in> visited then Inr (None, visited)
      else dfs_neighbors frames rank G (neighbors rank G node) (path_stack @ [node])
             (insert node visited))"
| "dfs_neighbors frames rank G [] path_stack visited = Inr (None, visited)"
| "dfs_neighbors frames rank G (neighbor # rest) path_stack visited =
     (case dfs frames rank G neighbor path_stack visited of
        Inl err \<Rightarrow> Inl err
      | Inr (result, visited') \<Rightarrow>
          if truthy result then Inr (result, visited')
          else dfs_neighbors frames rank G rest path_stack visited')"

declare dfs.simps [simp del] dfs_neighbors.simps [simp del]

text \<open>\<^verbatim>\<open>detect_circular_reference\<close>: the cycle path, or \<^verbatim>\<open>None\<close>.\<close>

definition detect_circular_reference ::
  "nat \<Rightarrow> iteration_order \<Rightarrow> graph \<Rightarrow> string \<Rightarrow> string \<Rightarrow> string
    \<Rightarrow> error + string list option" where
  "detect_circular_reference frames rank g src tgt rel =
     (if rel \<noteq> ''is_a'' then Inr None
      else (case dfs frames rank (is_a_graph (edges g) src tgt) src [] {} of
              Inl err \<Rightarrow> Inl err
            | Inr (result, visited) \<Rightarrow> Inr result))"

subsection \<open>Adding a relation\<close>

text \<open>\<^verbatim>\<open>f"{source}--{rel_type}--{target}"\<close>.\<close>

definition edge_key :: "string \<Rightarrow> string \<Rightarrow> string \<Rightarrow> string" where
  "edge_key src rel_type tgt = src @ ''--'' @ rel_type @ ''--'' @ tgt"

text \<open>
  The block under \<^verbatim>\<open># Update node relations\<close>, the same in \<^verbatim>\<open>_add_relation\<close> and
  \<^verbatim>\<open>_add_inverse_relation\<close>: nothing happens when the node is not in the dictionary.
\<close>

definition update_node_relations ::
  "(string \<times> node) list \<Rightarrow> string \<Rightarrow> string \<Rightarrow> string \<Rightarrow> (string \<times> node) list" where
  "update_node_relations ns n rel_type tgt =
     (case map_of ns n of
        None \<Rightarrow> ns
      | Some nd \<Rightarrow>
          (let targets = (case relations nd rel_type of None \<Rightarrow> [] | Some ts \<Rightarrow> ts);
               targets' = (if tgt \<in> set targets then targets else targets @ [tgt])
           in AList.update n (nd\<lparr>relations := (relations nd)(rel_type \<mapsto> targets')\<rparr>) ns))"

text \<open>\<^verbatim>\<open>_add_inverse_relation\<close>.\<close>

definition add_inverse_relation :: "graph \<Rightarrow> string \<Rightarrow> string \<Rightarrow> string \<Rightarrow> string \<Rightarrow> graph" where
  "add_inverse_relation g src rel_type tgt src_file =
     (case relation_inverses rel_type of
        None \<Rightarrow> g
      | Some inverse_type \<Rightarrow>
          (if inverse_type = [] then g
           else
             (let e = \<lparr>edge_id = edge_key tgt inverse_type src, source = tgt,
                       relation = inverse_type, target = src, source_file = src_file\<rparr>
              in (case find (\<lambda>e'. edge_id e' = edge_id e) (edges g) of
                    Some existing \<Rightarrow> g
                  | None \<Rightarrow>
                      g\<lparr>edges := edges g @ [e],
                        nodes := update_node_relations (nodes g) tgt inverse_type src\<rparr>))))"

text \<open>
  \<^verbatim>\<open>_add_relation\<close>. The cycle check comes first: when it raises, nothing was changed. For
  a relation other than \<open>is_a\<close> there is no check and no cycle.
\<close>

definition add_relation ::
  "nat \<Rightarrow> iteration_order \<Rightarrow> graph \<Rightarrow> string \<Rightarrow> string \<Rightarrow> string \<Rightarrow> string
    \<Rightarrow> error + graph" where
  "add_relation frames rank g src rel_type tgt src_file =
     (case (if rel_type = ''is_a'' then detect_circular_reference frames rank g src tgt ''is_a''
            else Inr None) of
        Inl err \<Rightarrow> Inl err
      | Inr cycle \<Rightarrow>
          if truthy cycle then Inr g
          else
            Inr (let e = \<lparr>edge_id = edge_key src rel_type tgt, source = src, relation = rel_type,
                           target = tgt, source_file = src_file\<rparr>
                 in (case find (\<lambda>e'. edge_id e' = edge_id e) (edges g) of
                       Some existing \<Rightarrow> g
                     | None \<Rightarrow>
                         add_inverse_relation
                           (g\<lparr>edges := edges g @ [e],
                              nodes := update_node_relations (nodes g) src rel_type tgt\<rparr>)
                           src rel_type tgt src_file)))"

text \<open>
  A sequence of calls \<^verbatim>\<open>_add_relation(source, rel_type, target, source_file)\<close>, all made
  with the same frames left. The result is the graph the store holds afterwards and the
  error, if a call raised: that call ends the sequence and leaves the graph as it found it.
\<close>

fun add_relations ::
  "nat \<Rightarrow> iteration_order \<Rightarrow> graph \<Rightarrow> (string \<times> string \<times> string \<times> string) list
    \<Rightarrow> graph \<times> error option" where
  "add_relations frames rank g [] = (g, None)"
| "add_relations frames rank g ((src, rel_type, tgt, src_file) # ops) =
     (case add_relation frames rank g src rel_type tgt src_file of
        Inl err \<Rightarrow> (g, Some err)
      | Inr g' \<Rightarrow> add_relations frames rank g' ops)"

text \<open>
  The (source, relation, target) triples a sequence of calls can insert: the triple of each
  call and the triple of its inverse edge. The sequence is free of collisions when no two of
  these triples have the same edge id.
\<close>

definition op_triples ::
  "(string \<times> string \<times> string \<times> string) list \<Rightarrow> (string \<times> string \<times> string) list" where
  "op_triples ops =
     concat (map (\<lambda>(src, rel_type, tgt, src_file).
        (src, rel_type, tgt) #
        (case relation_inverses rel_type of
           None \<Rightarrow> []
         | Some inverse_type \<Rightarrow> [(tgt, inverse_type, src)])) ops)"

definition collision_free :: "(string \<times> string \<times> string \<times> string) list \<Rightarrow> bool" where
  "collision_free ops =
     distinct (map (\<lambda>(src, rel_type, tgt). edge_key src rel_type tgt) (remdups (op_triples ops)))"

text \<open>How many edges of a graph have a given source, relation and target.\<close>

definition edge_count :: "graph \<Rightarrow> string \<Rightarrow> string \<Rightarrow> string \<Rightarrow> nat" where
  "edge_count g src rel_type tgt =
     length (filter (\<lambda>e. source e = src \<and> relation e = rel_type \<and> target e = tgt) (edges g))"

text \<open>The edge \<^verbatim>\<open>_add_relation\<close> and \<^verbatim>\<open>_add_inverse_relation\<close> build.\<close>

definition new_edge :: "string \<Rightarrow> string \<Rightarrow> string \<Rightarrow> string \<Rightarrow> edge" where
  "new_edge src rel_type tgt src_file =
     \<lparr>edge_id = edge_key src rel_type tgt, source = src, relation = rel_type,
      target = tgt, source_file = src_file\<rparr>"

text \<open>
  The list \<^verbatim>\<open>relations[rel_type]\<close> of a node after \<open>tgt\<close> was added to it: created when
  missing, and \<open>tgt\<close> appended unless it is there already.
\<close>

definition appended_targets :: "node \<Rightarrow> string \<Rightarrow> string \<Rightarrow> string list" where
  "appended_targets nd rel_type tgt =
     (let targets = (case relations nd rel_type of None \<Rightarrow> [] | Some ts \<Rightarrow> ts)
      in if tgt \<in> set targets then targets else targets @ [tgt])"

text \<open>The \<open>is_a\<close> edges of a graph, as a relation on node names.\<close>

definition is_a_edges :: "graph \<Rightarrow> (string \<times> string) set" where
  "is_a_edges g =
     set (map (\<lambda>e. (source e, target e)) (filter (\<lambda>e. relation e = ''is_a'') (edges g)))"

text \<open>An iteration order for examples: neighbours in the order of the edge list.\<close>

definition edge_order :: iteration_order where
  "edge_order = (\<lambda>node neighbor. 0)"

text \<open>
  What the edge list of the store satisfies as long as the ids of the triples in \<open>T\<close> do not
  collide: every edge carries the id of its own triple, a triple of \<open>T\<close>; no id occurs
  twice; and every edge whose relation has an inverse has its inverse edge in the list.
\<close>

definition edges_ok :: "(string \<times> string \<times> string) set \<Rightarrow> edge list \<Rightarrow> bool" where
  "edges_ok T es \<longleftrightarrow>
     (\<forall>e\<in>set es. edge_id e = edge_key (source e) (relation e) (target e)
        \<and> (source e, relation e, target e) \<in> T)
     \<and> distinct (map edge_id es)
     \<and> (\<forall>e\<in>set es. \<forall>r'. relation_inverses (relation e) = Some r' \<longrightarrow>
          (\<exists>e'\<in>set es. source e' = target e \<and> relation e' = r' \<and> target e' = source e))"

text \<open>
  What the edge list of the store satisfies whatever the names are: every edge carries the
  id of its own triple, and no id occurs twice.
\<close>

definition edge_ids_ok :: "edge list \<Rightarrow> bool" where
  "edge_ids_ok es \<longleftrightarrow>
     (\<forall>e\<in>set es. edge_id e = edge_key (source e) (relation e) (target e))
     \<and> distinct (map edge_id es)"

text \<open>Example call sequences and graphs.\<close>

definition ops_repeat :: "(string \<times> string \<times> string \<times> string) list" where
  "ops_repeat = [(''dog'', ''is_a'', ''animal'', ''a.md''), (''dog'', ''is_a'', ''animal'', ''b.md'')]"

definition ops_collide :: "(string \<times> string \<times> string \<times> string) list" where
  "ops_collide =
     [(''a'', ''has_instance'', ''b--has_instance--x'', ''a.md''),
      (''x'', ''is_a'', ''a--has_instance--b'', ''x.md'')]"

definition graph_with_a :: graph where
  "graph_with_a =
     \<lparr>nodes = [(''a'', \<lparr>node_id = ''a'', classification_path = Some ''a'', sources = [''a.md''],
                           relations = Map.empty\<rparr>)],
      edges = []\<rparr>"

definition ops_instances :: "(string \<times> string \<times> string \<times> string) list" where
  "ops_instances =
     [(''animal'', ''has_instance'', ''dog'', ''animal.md''),
      (''dog'', ''has_instance'', ''animal'', ''dog.md'')]"

text \<open>The graph after the calls of \<open>ops_instances\<close> on the empty graph.\<close>

definition mutual_instances :: graph where
  "mutual_instances =
     \<lparr>nodes = [],
      edges = [new_edge ''animal'' ''has_instance'' ''dog'' ''animal.md'',
               new_edge ''dog'' ''is_a'' ''animal'' ''animal.md'',
               new_edge ''dog'' ''has_instance'' ''animal'' ''dog.md'',
               new_edge ''animal'' ''is_a'' ''dog'' ''dog.md'']\<rparr>"

subsection \<open>What the cycle detector is measured against\<close>

text \<open>
  \<open>c\<close> is a cycle on an active path from \<open>src\<close>: there is a path of distinct nodes that
  starts at \<open>src\<close> and follows edges of \<open>E\<close> (the recursion path of the traversal),
  \<open>before @ cyc\<close>; its last node has an edge back to the first node of \<open>cyc\<close>, the
  repeated node, which occurs on the path only there; and \<open>c\<close> is \<open>cyc\<close>, the part of
  the path from the repeated node to its end, followed by the repeated node again.
\<close>

definition active_path_cycle :: "(string \<times> string) set \<Rightarrow> string \<Rightarrow> string list \<Rightarrow> bool" where
  "active_path_cycle E src c \<longleftrightarrow>
     (\<exists>before cyc.
        cyc \<noteq> [] \<and> hd (before @ cyc) = src \<and> distinct (before @ cyc)
      \<and> successively (\<lambda>a b. (a, b) \<in> E) (before @ cyc)
      \<and> (last cyc, hd cyc) \<in> E
      \<and> c = cyc @ [hd cyc])"

text \<open>
  The nodes that are finished (visited and no longer on the path) are closed under the edges
  and lie on no cycle: what the traversal keeps true as long as it finds no cycle.
\<close>

definition closed_under :: "(string \<times> string) set \<Rightarrow> string set \<Rightarrow> bool" where
  "closed_under E B \<longleftrightarrow> (\<forall>u\<in>B. \<forall>v. (u, v) \<in> E \<longrightarrow> v \<in> B)"

definition cycle_free :: "(string \<times> string) set \<Rightarrow> string set \<Rightarrow> bool" where
  "cycle_free E B \<longleftrightarrow> (\<forall>u\<in>B. (u, u) \<notin> E\<^sup>+)"

definition explored :: "(string \<times> string) set \<Rightarrow> string list \<Rightarrow> string set \<Rightarrow> bool" where
  "explored E path_stack visited \<longleftrightarrow>
     set path_stack \<subseteq> visited \<and> closed_under E (visited - set path_stack)
     \<and> cycle_free E (visited - set path_stack)"

text \<open>
  Example graphs: the \<open>is_a\<close> chain \<open>a\<close>, \<open>b\<close>, \<open>c\<close> with its inverse edges, and a
  graph to which the edge from \<open>a\<close> to \<open>b\<close> adds a second path to \<open>d\<close>.
\<close>

definition chain_abc :: graph where
  "chain_abc =
     \<lparr>nodes = [],
      edges = [new_edge ''a'' ''is_a'' ''b'' ''a.md'', new_edge ''b'' ''has_instance'' ''a'' ''a.md'',
               new_edge ''b'' ''is_a'' ''c'' ''b.md'', new_edge ''c'' ''has_instance'' ''b'' ''b.md'']\<rparr>"

definition diamond :: graph where
  "diamond =
     \<lparr>nodes = [],
      edges = [new_edge ''b'' ''is_a'' ''d'' ''b.md'', new_edge ''c'' ''is_a'' ''d'' ''c.md'',
               new_edge ''a'' ''is_a'' ''c'' ''a.md'']\<rparr>"

text \<open>
  A long chain as the store builds it: the \<open>is_a\<close> edges from \<open>chain_name i\<close> to
  \<open>chain_name (i + 1)\<close> for \<open>i\<close> below \<open>k\<close>, each followed by its inverse edge. The
  names are \<open>c\<close>, \<open>cc\<close>, \<open>ccc\<close> and so on.
\<close>

definition chain_name :: "nat \<Rightarrow> string" where
  "chain_name i = replicate (Suc i) CHR ''c''"

definition is_a_chain :: "nat \<Rightarrow> graph" where
  "is_a_chain k =
     \<lparr>nodes = [],
      edges = concat (map (\<lambda>i.
                [new_edge (chain_name i) ''is_a'' (chain_name (Suc i)) ''chain.md'',
                 new_edge (chain_name (Suc i)) ''has_instance'' (chain_name i) ''chain.md''])
              [0..<k])\<rparr>"

section \<open>The search engine\<close>

text \<open>
  \<^verbatim>\<open>SemWikiSearch\<close> reads the graph the parser saved. The node dictionary has one entry
  per node id; the loops over \<^verbatim>\<open>self.graph["nodes"].items()\<close> run in its order.
  \<^verbatim>\<open>node_data.get("classification_path", node_id)\<close> falls back to the node id.
\<close>

definition node_classification :: "string \<Rightarrow> node \<Rightarrow> string" where
  "node_classification n nd = (case classification_path nd of Some cp \<Rightarrow> cp | None \<Rightarrow> n)"

subsection \<open>The inverted index\<close>

text \<open>
  An entry of \<^verbatim>\<open>self.search_index\<close>. The entry made for the concept name has no
  \<^verbatim>\<open>is_partial\<close> key. The index is a \<^verbatim>\<open>defaultdict(list)\<close>: reading a missing key gives
  the empty list, and appending under a missing key creates it (at the end).
\<close>

record index_entry =
  entry_search_path :: string
  entry_classification_path :: string
  entry_depth :: nat
  entry_specificity :: nat
  entry_is_partial :: "bool option"
  entry_node :: node

type_synonym search_index = "(string \<times> index_entry list) list"

definition index_lookup :: "search_index \<Rightarrow> string \<Rightarrow> index_entry list" where
  "index_lookup idx key = (case map_of idx key of None \<Rightarrow> [] | Some es \<Rightarrow> es)"

definition index_append :: "search_index \<Rightarrow> string \<Rightarrow> index_entry \<Rightarrow> search_index" where
  "index_append idx key e = AList.update key (index_lookup idx key @ [e]) idx"

text \<open>The body of the loop over the nodes in \<^verbatim>\<open>build_search_index\<close>.\<close>

definition index_node :: "search_index \<Rightarrow> string \<times> node \<Rightarrow> search_index" where
  "index_node idx item =
     (case item of (n, node_data) \<Rightarrow>
        (let cp = node_classification n node_data;
             concept_name = last (split_on CHR ''/'' cp);
             depth = str_count CHR ''/'' cp;
             idx1 = index_append idx (lower concept_name)
                      \<lparr>entry_search_path = n, entry_classification_path = cp,
                       entry_depth = depth, entry_specificity = depth + 1,
                       entry_is_partial = None, entry_node = node_data\<rparr>;
             parts = split_on CHR ''/'' cp
         in fold (\<lambda>(i, part) idx'.
                    index_append idx' (lower part)
                      \<lparr>entry_search_path = n, entry_classification_path = cp,
                       entry_depth = depth, entry_specificity = i + 1,
                       entry_is_partial = Some (i < length parts - 1),
                       entry_node = node_data\<rparr>)
              (enumerate 0 parts) idx1))"

text \<open>\<^verbatim>\<open>build_search_index\<close>.\<close>

definition build_search_index :: "graph \<Rightarrow> search_index" where
  "build_search_index g = fold (\<lambda>item idx. index_node idx item) (nodes g) []"

subsection \<open>The ancestor hierarchy\<close>

type_synonym hierarchy_cache = "string \<rightharpoonup> string list"

text \<open>
  The search for the node of a classification path: the id of the first node whose
  \<^verbatim>\<open>classification_path\<close> is the path.
\<close>

definition find_search_path :: "graph \<Rightarrow> string \<Rightarrow> string option" where
  "find_search_path g cp =
     map_option fst (find (\<lambda>(n, node_data). classification_path node_data = Some cp) (nodes g))"

text \<open>
  The lexical fallback: \<^verbatim>\<open>for i in range(len(parts) - 1, 0, -1)\<close>, appending the prefixes
  not yet visited.
\<close>

definition lexical_parents :: "string list \<Rightarrow> string list \<times> string set \<Rightarrow> string list \<times> string set" where
  "lexical_parents parts start =
     fold (\<lambda>i (hierarchy, visited).
             (let parent_path = join_with CHR ''/'' (take i parts)
              in if parent_path \<in> visited then (hierarchy, visited)
                 else (hierarchy @ [parent_path], insert parent_path visited)))
       (rev [1..<length parts]) start"

definition max_depth :: nat where
  "max_depth = 10"

text \<open>
  The loop \<^verbatim>\<open>while current and depth < max_depth\<close>. A node that is not in the dictionary
  reads as \<^verbatim>\<open>{}\<close>, so it has no \<open>is_a\<close> targets and the loop breaks; a missing or empty
  target list breaks it too. A target that is not a node stands for its own classification
  path. A target list is always a list here (the \<^verbatim>\<open>isinstance\<close> test of the source is
  true).
\<close>

function traverse ::
  "graph \<Rightarrow> string \<Rightarrow> nat \<Rightarrow> string list \<Rightarrow> string set \<Rightarrow> string list" where
  "traverse g current depth hierarchy visited =
     (if current \<noteq> [] \<and> depth < max_depth then
        (case map_of (nodes g) current of
           None \<Rightarrow> hierarchy
         | Some node_data \<Rightarrow>
             (case relations node_data ''is_a'' of
                None \<Rightarrow> hierarchy
              | Some [] \<Rightarrow> hierarchy
              | Some (tgt # others) \<Rightarrow>
                  (let target_classification =
                         (case map_of (nodes g) tgt of
                            None \<Rightarrow> tgt
                          | Some target_node \<Rightarrow> node_classification tgt target_node)
                   in if target_classification \<notin> visited then
                        traverse g tgt (depth + 1) (hierarchy @ [target_classification])
                          (insert target_classification visited)
                      else traverse g tgt (depth + 1) hierarchy visited)))
      else hierarchy)"
  by pat_completeness auto
termination
  by (relation "measure (\<lambda>(g, current, depth, hierarchy, visited). max_depth - depth)") auto

declare traverse.simps [simp del]

text \<open>
  \<^verbatim>\<open>get_parent_hierarchy\<close>, with \<^verbatim>\<open>self.hierarchy_cache\<close> passed in and returned. The
  lexical fallback returns without writing the cache. \<^verbatim>\<open>if not search_path\<close> is true
  for \<^verbatim>\<open>None\<close> and for the empty string.
\<close>

definition get_parent_hierarchy ::
  "graph \<Rightarrow> hierarchy_cache \<Rightarrow> string \<Rightarrow> string list \<times> hierarchy_cache" where
  "get_parent_hierarchy g cache cp =
     (case cache cp of
        Some hierarchy \<Rightarrow> (hierarchy, cache)
      | None \<Rightarrow>
          (case find_search_path g cp of
             None \<Rightarrow> (fst (lexical_parents (split_on CHR ''/'' cp) ([cp], {cp})), cache)
           | Some search_path \<Rightarrow>
               (if search_path = [] then
                  (fst (lexical_parents (split_on CHR ''/'' cp) ([cp], {cp})), cache)
                else
                  (let hierarchy = traverse g search_path 0 [cp] {cp}
                   in (hierarchy, cache(cp \<mapsto> hierarchy))))))"

subsection \<open>The query\<close>

text \<open>A result of \<^verbatim>\<open>search\<close>; the key \<^verbatim>\<open>hierarchy\<close> is there only when it was asked for.\<close>

record result =
  result_search_path :: string
  result_classification_path :: string
  result_full_classification_path :: string
  result_depth :: nat
  result_specificity :: nat
  result_node :: node
  result_matched_term :: string
  result_hierarchy :: "string list option"

text \<open>\<^verbatim>\<open>query_lower in part.lower() or part.lower() in query_lower\<close>.\<close>

definition segment_matches :: "string \<Rightarrow> string \<Rightarrow> bool" where
  "segment_matches query_lower part \<longleftrightarrow>
     str_in query_lower (lower part) \<or> str_in (lower part) query_lower"

text \<open>The loop with \<^verbatim>\<open>break\<close>: the index of the first segment that matches.\<close>

fun first_match :: "string \<Rightarrow> string list \<Rightarrow> nat option" where
  "first_match query_lower [] = None"
| "first_match query_lower (part # parts) =
     (if segment_matches query_lower part then Some 0
      else map_option Suc (first_match query_lower parts))"

text \<open>\<^verbatim>\<open>match_index\<close> after both loops: a match in the search path counts as a match of
  the last segment of the classification path.\<close>

definition match_index :: "string \<Rightarrow> string \<Rightarrow> string list \<Rightarrow> nat option" where
  "match_index query_lower n parts =
     (case first_match query_lower parts of
        Some i \<Rightarrow> Some i
      | None \<Rightarrow>
          (case first_match query_lower (split_on CHR ''/'' n) of
             Some i \<Rightarrow> Some (length parts - 1)
           | None \<Rightarrow> None))"

text \<open>The body of the loop over the nodes in \<^verbatim>\<open>search\<close>; the state is \<open>(results, seen)\<close>.\<close>

definition search_node ::
  "string \<Rightarrow> string \<times> node \<Rightarrow> result list \<times> string set \<Rightarrow> result list \<times> string set" where
  "search_node query_lower item state =
     (case item of (n, node_data) \<Rightarrow>
       (case state of (results, seen) \<Rightarrow>
        (let cp = node_classification n node_data;
             parts = split_on CHR ''/'' cp
         in (case match_index query_lower n parts of
               None \<Rightarrow> (results, seen)
             | Some mi \<Rightarrow>
                 (let truncated_path = join_with CHR ''/'' (take (mi + 1) parts)
                  in if truncated_path \<in> seen then (results, seen)
                     else
                       (results @
                          [\<lparr>result_search_path = n,
                            result_classification_path = truncated_path,
                            result_full_classification_path = cp,
                            result_depth = mi,
                            result_specificity = mi + 1,
                            result_node = node_data,
                            result_matched_term =
                              (if mi < length parts then parts ! mi
                               else last (split_on CHR ''/'' n)),
                            result_hierarchy = None\<rparr>],
                        insert truncated_path seen))))))"

text \<open>The loop \<^verbatim>\<open>for result in results\<close> that attaches the hierarchies.\<close>

fun attach_hierarchy ::
  "graph \<Rightarrow> hierarchy_cache \<Rightarrow> result list \<Rightarrow> result list \<times> hierarchy_cache" where
  "attach_hierarchy g cache [] = ([], cache)"
| "attach_hierarchy g cache (r # rs) =
     (case get_parent_hierarchy g cache (result_classification_path r) of
        (hierarchy, cache1) \<Rightarrow>
          (case attach_hierarchy g cache1 rs of
             (rs', cache2) \<Rightarrow> (r\<lparr>result_hierarchy := Some hierarchy\<rparr> # rs', cache2)))"

text \<open>
  \<^verbatim>\<open>search\<close>. \<^verbatim>\<open>results.sort(key=lambda x: (-x["specificity"], x["classification_path"]))\<close>
  is a stable sort on the pair, compared lexicographically.
\<close>

definition search ::
  "graph \<Rightarrow> hierarchy_cache \<Rightarrow> string \<Rightarrow> bool \<Rightarrow> result list \<times> hierarchy_cache" where
  "search g cache query include_hierarchy =
     (let query_lower = lower query;
          results = fst (fold (search_node query_lower) (nodes g) ([], {}));
          sorted_results =
            sort_key (\<lambda>r. (- int (result_specificity r), result_classification_path r)) results
      in if include_hierarchy then attach_hierarchy g cache sorted_results
         else (sorted_results, cache))"

subsection \<open>What the index and the query are measured against\<close>

text \<open>
  The entries \<^verbatim>\<open>build_search_index\<close> makes for one node, as (key, entry) pairs in the order
  it makes them: first the entry for the concept name, the last segment of the classification
  path, with the segment count of the whole path as specificity and no partial marker; then
  one entry for every prefix of \<open>k\<close> segments, \<open>k\<close> from 1 to the segment count, keyed by
  the lowercased last segment of the prefix, with specificity \<open>k\<close> and marked partial
  exactly when the prefix is shorter than the path.
\<close>

definition concept_entry :: "string \<Rightarrow> node \<Rightarrow> string \<times> index_entry" where
  "concept_entry n nd =
     (let cp = node_classification n nd; parts = split_on CHR ''/'' cp
      in (lower (last parts),
          \<lparr>entry_search_path = n, entry_classification_path = cp,
           entry_depth = length parts - 1, entry_specificity = length parts,
           entry_is_partial = None, entry_node = nd\<rparr>))"

definition prefix_entry :: "string \<Rightarrow> node \<Rightarrow> nat \<Rightarrow> string \<times> index_entry" where
  "prefix_entry n nd k =
     (let cp = node_classification n nd; parts = split_on CHR ''/'' cp
      in (lower (last (take k parts)),
          \<lparr>entry_search_path = n, entry_classification_path = cp,
           entry_depth = length parts - 1, entry_specificity = k,
           entry_is_partial = Some (k < length parts), entry_node = nd\<rparr>))"

definition node_entries :: "string \<times> node \<Rightarrow> (string \<times> index_entry) list" where
  "node_entries item =
     (case item of (n, nd) \<Rightarrow>
        concept_entry n nd #
        map (prefix_entry n nd) [1..<length (split_on CHR ''/'' (node_classification n nd)) + 1])"

text \<open>A node with the classification path \<open>a/b/c\<close>.\<close>

definition node_abc :: "string \<times> node" where
  "node_abc = (''c'', \<lparr>node_id = ''c'', classification_path = Some ''a/b/c'', sources = [''c.md''],
      relations = Map.empty\<rparr>)"

text \<open>
  A node whose classification path has capital letters, one of them outside ASCII: the
  path is \<open>Place/\<close> followed by \<open>Ecole\<close> written with a capital E acute (code point 201).
\<close>

definition node_school :: "string \<times> node" where
  "node_school =
     (''school'', \<lparr>node_id = ''school'',
        classification_path = Some (''Place/'' @ CHR 0xC9 # ''cole''),
        sources = [''school.md''], relations = Map.empty\<rparr>)"

text \<open>The result \<^verbatim>\<open>search\<close> appends for a node whose match index is \<open>mi\<close>.\<close>

definition node_result :: "string \<Rightarrow> node \<Rightarrow> nat \<Rightarrow> result" where
  "node_result n nd mi =
     (let cp = node_classification n nd; parts = split_on CHR ''/'' cp
      in \<lparr>result_search_path = n,
          result_classification_path = join_with CHR ''/'' (take (mi + 1) parts),
          result_full_classification_path = cp,
          result_depth = mi,
          result_specificity = mi + 1,
          result_node = nd,
          result_matched_term = (if mi < length parts then parts ! mi else last (split_on CHR ''/'' n)),
          result_hierarchy = None\<rparr>)"

text \<open>A result without its hierarchy, and the results of a query before they are sorted.\<close>

definition strip_hierarchy :: "result \<Rightarrow> result" where
  "strip_hierarchy r = r\<lparr>result_hierarchy := None\<rparr>"

definition raw_results :: "graph \<Rightarrow> string \<Rightarrow> result list" where
  "raw_results g query = fst (fold (search_node (lower query)) (nodes g) ([], {}))"

text \<open>
  A hierarchy cache is valid for a graph when every cached list is what
  \<^verbatim>\<open>get_parent_hierarchy\<close> computes for its path on an empty cache. The cache of a new
  \<^verbatim>\<open>SemWikiSearch\<close> is empty.
\<close>

definition valid_cache :: "graph \<Rightarrow> hierarchy_cache \<Rightarrow> bool" where
  "valid_cache g cache \<longleftrightarrow>
     (\<forall>cp hierarchy. cache cp = Some hierarchy \<longrightarrow>
        hierarchy = fst (get_parent_hierarchy g Map.empty cp))"

text \<open>
  Example graphs: an \<open>is_a\<close> chain of twelve nodes \<open>n00\<close>, ..., \<open>n11\<close> with the
  classification paths \<open>p00\<close>, ..., \<open>p11\<close>; and a chain \<open>n0\<close>, \<open>n1\<close>, \<open>n2\<close> whose
  first two nodes share the classification path \<open>p\<close>.
\<close>

definition chain_node :: "string \<Rightarrow> string \<Rightarrow> string list \<Rightarrow> string \<times> node" where
  "chain_node n cp is_a_targets =
     (n, \<lparr>node_id = n, classification_path = Some cp, sources = [],
          relations = (if is_a_targets = [] then Map.empty else [''is_a'' \<mapsto> is_a_targets])\<rparr>)"

definition chain12 :: graph where
  "chain12 =
     \<lparr>nodes =
        [chain_node ''n00'' ''p00'' [''n01''], chain_node ''n01'' ''p01'' [''n02''],
         chain_node ''n02'' ''p02'' [''n03''], chain_node ''n03'' ''p03'' [''n04''],
         chain_node ''n04'' ''p04'' [''n05''], chain_node ''n05'' ''p05'' [''n06''],
         chain_node ''n06'' ''p06'' [''n07''], chain_node ''n07'' ''p07'' [''n08''],
         chain_node ''n08'' ''p08'' [''n09''], chain_node ''n09'' ''p09'' [''n10''],
         chain_node ''n10'' ''p10'' [''n11''], chain_node ''n11'' ''p11'' []],
      edges = []\<rparr>"

definition shared_path_graph :: graph where
  "shared_path_graph =
     \<lparr>nodes = [chain_node ''n0'' ''p'' [''n1''], chain_node ''n1'' ''p'' [''n2''],
               chain_node ''n2'' ''q'' []],
      edges = []\<rparr>"

section \<open>Properties of the path resolver\<close>

lemma hd_insort_key:
  "hd (insort_key f x ys) = (if ys = [] \<or> f x \<le> f (hd ys) then x else hd ys)"
  by (cases ys) auto

lemma sort_key_not_Nil: "xs \<noteq> [] \<Longrightarrow> sort_key f xs \<noteq> []"
  by (cases xs) auto

lemma hd_sort_key_first_min:
  fixes f :: "'a \<Rightarrow> int"
  assumes "xs \<noteq> []"
  shows "\<exists>i<length xs. hd (sort_key f xs) = xs ! i
           \<and> (\<forall>j<length xs. f (xs ! i) \<le> f (xs ! j))
           \<and> (\<forall>j<i. f (xs ! i) < f (xs ! j))"
  using assms
proof (induction xs)
  case Nil
  then show ?case by simp
next
  case (Cons x xs)
  show ?case
  proof (cases "xs = []")
    case True
    then show ?thesis by simp
  next
    case False
    with Cons.IH obtain i where i: "i < length xs" "hd (sort_key f xs) = xs ! i"
      "\<forall>j<length xs. f (xs ! i) \<le> f (xs ! j)" "\<forall>j<i. f (xs ! i) < f (xs ! j)"
      by blast
    have ne: "sort_key f xs \<noteq> []" using False by (rule sort_key_not_Nil)
    show ?thesis
    proof (cases "f x \<le> f (xs ! i)")
      case True
      have "hd (sort_key f (x # xs)) = x"
        using True ne i(2) by (simp add: hd_insort_key)
      moreover have "\<forall>j<length (x # xs). f x \<le> f ((x # xs) ! j)"
      proof (intro allI impI)
        fix j assume "j < length (x # xs)"
        then show "f x \<le> f ((x # xs) ! j)"
          using True i(3) by (cases j) (auto intro: order_trans)
      qed
      ultimately show ?thesis by (intro exI [of _ 0]) simp
    next
      case False
      have "hd (sort_key f (x # xs)) = xs ! i"
        using False ne i(2) by (simp add: hd_insort_key)
      moreover have "\<forall>j<length (x # xs). f (xs ! i) \<le> f ((x # xs) ! j)"
      proof (intro allI impI)
        fix j assume "j < length (x # xs)"
        then show "f (xs ! i) \<le> f ((x # xs) ! j)"
          using False i(3) by (cases j) auto
      qed
      moreover have "\<forall>j<Suc i. f (xs ! i) < f ((x # xs) ! j)"
      proof (intro allI impI)
        fix j assume "j < Suc i"
        then show "f (xs ! i) < f ((x # xs) ! j)"
          using False i(4) by (cases j) auto
      qed
      ultimately show ?thesis using i(1) by (intro exI [of _ "Suc i"]) simp
    qed
  qed
qed

lemma resolve_reference_registered:
  "search_to_classification tax concept_name = Some cp \<Longrightarrow>
     resolve_reference tax ctx concept_name ps = (tax, concept_name, cp, [cp])"
  by (simp add: resolve_reference_def)

lemma resolve_reference_parents:
  assumes "search_to_classification tax concept_name = None" and "vals \<noteq> []"
  shows "resolve_reference tax ctx concept_name (Some vals) =
     (let base = concept_base concept_name;
          classification_path = path_under (hd (sorted_paths vals)) base;
          all_paths = map (\<lambda>path. path_under path base) vals;
          tax1 = tax\<lparr>search_to_classification :=
                      (search_to_classification tax)(concept_name \<mapsto> classification_path),
                    classification_to_search :=
                      (classification_to_search tax)(classification_path \<mapsto> concept_name)\<rparr>
      in (if 1 < length vals
          then tax1\<lparr>aliases := (aliases tax)(concept_name \<mapsto> tl all_paths)\<rparr>
          else tax1, concept_name, classification_path, all_paths))"
  using assms by (simp add: resolve_reference_def Let_def)

lemma resolve_reference_twice:
  "res_classification
     (resolve_reference (res_taxonomy (resolve_reference tax ctx concept_name ps)) ctx concept_name ps)
   = res_classification (resolve_reference tax ctx concept_name ps)"
proof (cases "search_to_classification tax concept_name")
  case (Some cp)
  then show ?thesis
    by (simp add: resolve_reference_registered res_taxonomy_def)
next
  case None
  show ?thesis
  proof (cases "ps \<noteq> None \<and> ps \<noteq> Some []")
    case True
    then obtain vals where ps: "ps = Some vals" and ne: "vals \<noteq> []" by auto
    let ?r = "resolve_reference tax ctx concept_name (Some vals)"
    have "search_to_classification (res_taxonomy ?r) concept_name = Some (res_classification ?r)"
      using None ne
      by (simp add: resolve_reference_parents Let_def res_taxonomy_def res_classification_def)
    then show ?thesis
      unfolding ps by (simp add: resolve_reference_registered res_classification_def)
  next
    case False
    then have "res_taxonomy (resolve_reference tax ctx concept_name ps) = tax"
      using None
      by (auto simp: resolve_reference_def res_taxonomy_def Let_def split: option.splits)
    then show ?thesis by simp
  qed
qed

subsection \<open>Resolution is idempotent\<close>

text \<open>
  Claim C5. Resolving the same search name with the same declared parents twice in
  succession (the parser's context unchanged in between) gives the same classification path
  both times: the second call runs on the taxonomy the first call returned. And once a search
  name has a mapping in \<open>search_to_classification\<close>, every resolution returns that mapping
  and leaves the taxonomy as it is, whatever context and declared parents are passed.
\<close>

theorem resolve_reference_idempotent:
  "res_classification
     (resolve_reference (res_taxonomy (resolve_reference tax ctx concept_name ps))
        ctx concept_name ps)
     = res_classification (resolve_reference tax ctx concept_name ps)
   \<and> (search_to_classification tax concept_name = Some cp \<longrightarrow>
        resolve_reference tax ctx' concept_name ps' = (tax, concept_name, cp, [cp]))"
  using resolve_reference_twice resolve_reference_registered by blast

text \<open>
  An instance: after \<open>z\<close> was resolved under the parents \<open>x/y\<close> and \<open>x\<close>, it is
  registered, and a later resolution with another context and another parent returns the
  registered path.
\<close>

lemma tax_z_registered: "search_to_classification tax_z ''z'' = Some ''x/y/z''"
  by (simp add: tax_z_def resolve_reference_def res_taxonomy_def empty_taxonomy_def
      sorted_paths_def str_count_def concept_base_def path_under_def Let_def)

theorem resolve_reference_idempotent_witness:
  "search_to_classification tax_z ''z'' = Some ''x/y/z''
   \<and> resolve_reference tax_z (Some ''pages/a/b.md'') ''z'' (Some [''q'']) = (tax_z, ''z'', ''x/y/z'', [''x/y/z''])
   \<and> res_classification (resolve_reference tax_z None ''z'' (Some [''x/y'', ''x'']))
       = res_classification (resolve_reference empty_taxonomy None ''z'' (Some [''x/y'', ''x'']))"
  using resolve_reference_idempotent [of empty_taxonomy None "''z''" "Some [''x/y'', ''x'']"]
    resolve_reference_idempotent [of tax_z None "''z''" "Some [''x/y'', ''x'']" "''x/y/z''"
       "Some ''pages/a/b.md''" "Some [''q'']"]
    tax_z_registered
  by (simp add: tax_z_def)

subsection \<open>The primary parent\<close>

text \<open>
  The parents \<open>b\<close> and \<open>a\<close> have the same segment count and \<open>a\<close> is the smaller
  string, yet the concept \<open>z\<close> declared with \<open>[b, a]\<close> is classified under \<open>b\<close>: the
  sort is stable, so the parent declared first wins a tie, not the lexicographically
  smallest one.
\<close>

theorem primary_parent_tie_counterexample:
  "str_count CHR ''/'' ''a'' = str_count CHR ''/'' ''b'' \<and> (''a'' :: string) < ''b''
   \<and> res_classification (resolve_reference empty_taxonomy None ''z'' (Some [''b'', ''a'']))
       = ''b/z''
   \<and> res_classification (resolve_reference empty_taxonomy None ''z'' (Some [''b'', ''a'']))
       \<noteq> path_under ''a'' (concept_base ''z'')"
  by (simp add: resolve_reference_def res_classification_def empty_taxonomy_def
      sorted_paths_def str_count_def concept_base_def path_under_def Let_def)

text \<open>
  Claim C4, amended. For a search name not yet in the taxonomy and a non-empty list of
  declared parents, the primary parent is a declared parent of greatest segment count (the
  segment count of a path is one more than its number of \<open>/\<close>), and among the parents
  of that count it is the one declared first (every parent declared before it has fewer
  segments). The classification path is the primary parent, \<open>/\<close>, and the last segment of
  the search name; it is registered in both directions. When the primary parent is the
  first declared parent and there are several parents, the other parents, each combined the
  same way with the local name, are recorded as the aliases.
\<close>

theorem resolve_reference_primary_parent:
  assumes "search_to_classification tax concept_name = None" and "parents \<noteq> []"
  shows "\<exists>i<length parents.
           (\<forall>j<length parents. str_count CHR ''/'' (parents ! j) \<le> str_count CHR ''/'' (parents ! i))
         \<and> (\<forall>j<i. str_count CHR ''/'' (parents ! j) < str_count CHR ''/'' (parents ! i))
         \<and> res_classification (resolve_reference tax ctx concept_name (Some parents))
             = parents ! i @ ''/'' @ last (split_on CHR ''/'' concept_name)
         \<and> search_to_classification
               (res_taxonomy (resolve_reference tax ctx concept_name (Some parents))) concept_name
             = Some (res_classification (resolve_reference tax ctx concept_name (Some parents)))
         \<and> classification_to_search
               (res_taxonomy (resolve_reference tax ctx concept_name (Some parents)))
               (res_classification (resolve_reference tax ctx concept_name (Some parents)))
             = Some concept_name
         \<and> (i = 0 \<and> 1 < length parents \<longrightarrow>
              aliases (res_taxonomy (resolve_reference tax ctx concept_name (Some parents)))
                concept_name
              = Some (map (\<lambda>p. p @ ''/'' @ last (split_on CHR ''/'' concept_name)) (tl parents)))"
proof -
  let ?f = "\<lambda>x. - int (str_count CHR ''/'' x)"
  from hd_sort_key_first_min [OF assms(2), of ?f]
  obtain i where i: "i < length parents" "hd (sort_key ?f parents) = parents ! i"
    "\<forall>j<length parents. ?f (parents ! i) \<le> ?f (parents ! j)"
    "\<forall>j<i. ?f (parents ! i) < ?f (parents ! j)"
    by blast
  have hd: "hd (sorted_paths parents) = parents ! i"
    using i(2) by (simp add: sorted_paths_def)
  show ?thesis
  proof (intro exI [of _ i] conjI)
    show "i < length parents" by (rule i(1))
    show "\<forall>j<length parents. str_count CHR ''/'' (parents ! j) \<le> str_count CHR ''/'' (parents ! i)"
      using i(3) by simp
    show "\<forall>j<i. str_count CHR ''/'' (parents ! j) < str_count CHR ''/'' (parents ! i)"
      using i(4) by simp
  qed (use assms hd in \<open>simp_all add: resolve_reference_parents Let_def res_taxonomy_def
        res_classification_def path_under_def concept_base_def map_tl\<close>)
qed

text \<open>
  The instance of the specification: the parents \<open>[x/y, x]\<close> for the concept \<open>z\<close> give
  the classification \<open>x/y/z\<close> and the alias \<open>x/z\<close>.
\<close>

theorem resolve_reference_primary_parent_witness:
  "search_to_classification empty_taxonomy ''z'' = None \<and> [''x/y'', ''x''] \<noteq> []
   \<and> res_classification (resolve_reference empty_taxonomy None ''z'' (Some [''x/y'', ''x'']))
       = ''x/y/z''
   \<and> aliases (res_taxonomy (resolve_reference empty_taxonomy None ''z'' (Some [''x/y'', ''x''])))
        ''z'' = Some [''x/z'']"
proof -
  let ?ps = "[''x/y'', ''x'']"
  let ?r = "resolve_reference empty_taxonomy None ''z'' (Some ?ps)"
  have h1: "search_to_classification empty_taxonomy ''z'' = None"
    by (simp add: empty_taxonomy_def)
  have h2: "?ps \<noteq> []" by simp
  from resolve_reference_primary_parent [OF h1 h2, of None]
  obtain i where i: "i < length ?ps"
    and mx: "\<forall>j<length ?ps. str_count CHR ''/'' (?ps ! j) \<le> str_count CHR ''/'' (?ps ! i)"
    and cl: "res_classification ?r = ?ps ! i @ ''/'' @ last (split_on CHR ''/'' ''z'')"
    and al: "i = 0 \<and> 1 < length ?ps \<longrightarrow>
       aliases (res_taxonomy ?r) ''z''
       = Some (map (\<lambda>p. p @ ''/'' @ last (split_on CHR ''/'' ''z'')) (tl ?ps))"
    by blast
  from mx have "0 < length ?ps \<longrightarrow> str_count CHR ''/'' (?ps ! 0) \<le> str_count CHR ''/'' (?ps ! i)"
    by (rule spec)
  then have "str_count CHR ''/'' (?ps ! 0) \<le> str_count CHR ''/'' (?ps ! i)"
    by simp
  with i have i0: "i = 0"
    by (cases i) (simp_all add: str_count_def)
  show ?thesis using h1 cl al unfolding i0 by simp
qed

subsection \<open>The list of all paths and the aliases\<close>

text \<open>
  Claim C10, at a failing input. The concept \<open>z\<close> is declared with the parents
  \<open>[x, x/y]\<close> on a fresh parser. Its primary classification is \<open>x/y/z\<close>, under the deeper
  parent. The list of all paths is returned in declared order, \<open>[x/z, x/y/z]\<close>, so it does
  not start with the primary classification, and the aliases recorded are its tail: the
  primary classification itself. The alternative path \<open>x/z\<close> is recorded nowhere. A later
  resolution returns the primary classification alone. With the same parents declared as
  \<open>[x/y, x]\<close> the list starts with the primary classification and the alias is \<open>x/z\<close>.
\<close>

theorem resolve_reference_alias_is_primary:
  "res_classification (resolve_reference empty_taxonomy None ''z'' (Some [''x'', ''x/y'']))
     = ''x/y/z''
   \<and> res_all_paths (resolve_reference empty_taxonomy None ''z'' (Some [''x'', ''x/y'']))
       = [''x/z'', ''x/y/z'']
   \<and> aliases (res_taxonomy (resolve_reference empty_taxonomy None ''z'' (Some [''x'', ''x/y''])))
       = [''z'' \<mapsto> [''x/y/z'']]
   \<and> res_all_paths
        (resolve_reference
           (res_taxonomy (resolve_reference empty_taxonomy None ''z'' (Some [''x'', ''x/y''])))
           None ''z'' (Some [''x'', ''x/y'']))
       = [''x/y/z'']
   \<and> res_all_paths (resolve_reference empty_taxonomy None ''z'' (Some [''x/y'', ''x'']))
       = [''x/y/z'', ''x/z'']
   \<and> aliases (res_taxonomy (resolve_reference empty_taxonomy None ''z'' (Some [''x/y'', ''x''])))
       = [''z'' \<mapsto> [''x/z'']]"
  by (simp add: resolve_reference_def res_classification_def res_all_paths_def res_taxonomy_def
      empty_taxonomy_def sorted_paths_def str_count_def concept_base_def path_under_def Let_def)

section \<open>Properties of the cycle detector\<close>

subsection \<open>The cases of a call\<close>

lemma set_neighbors: "set (neighbors rank G node) = {v. (node, v) \<in> set G}"
  by (auto simp: neighbors_def intro: rev_image_eqI)

lemma dfs_no_frame: "dfs 0 rank G node path_stack visited = Inl RecursionError"
  by (simp add: dfs.simps)

lemma dfs_in_stack:
  "node \<in> set path_stack \<Longrightarrow>
     dfs (Suc frames) rank G node path_stack visited =
       Inr (Some (drop (index_of path_stack node) path_stack @ [node]), visited)"
  by (simp add: dfs.simps)

lemma dfs_explored:
  "node \<notin> set path_stack \<Longrightarrow> node \<in> visited \<Longrightarrow>
     dfs (Suc frames) rank G node path_stack visited = Inr (None, visited)"
  by (simp add: dfs.simps)

lemma dfs_fresh:
  "node \<notin> set path_stack \<Longrightarrow> node \<notin> visited \<Longrightarrow>
     dfs (Suc frames) rank G node path_stack visited =
       dfs_neighbors frames rank G (neighbors rank G node) (path_stack @ [node])
         (insert node visited)"
  by (simp add: dfs.simps)

lemma dfs_neighbors_raise:
  "dfs frames rank G neighbor path_stack visited = Inl err \<Longrightarrow>
     dfs_neighbors frames rank G (neighbor # rest) path_stack visited = Inl err"
  by (simp add: dfs_neighbors.simps)

lemma dfs_neighbors_found:
  "dfs frames rank G neighbor path_stack visited = Inr (result, visited') \<Longrightarrow> truthy result \<Longrightarrow>
     dfs_neighbors frames rank G (neighbor # rest) path_stack visited = Inr (result, visited')"
  by (simp add: dfs_neighbors.simps)

lemma dfs_neighbors_next:
  "dfs frames rank G neighbor path_stack visited = Inr (result, visited') \<Longrightarrow> \<not> truthy result \<Longrightarrow>
     dfs_neighbors frames rank G (neighbor # rest) path_stack visited =
       dfs_neighbors frames rank G rest path_stack visited'"
  by (simp add: dfs_neighbors.simps)

subsection \<open>A traversal that reports nothing has explored everything\<close>

lemma closed_under_rtrancl:
  assumes "closed_under E B" and "(u, v) \<in> E\<^sup>*" and "u \<in> B"
  shows "v \<in> B"
  using assms(2,3,1) by (induction rule: rtrancl_induct) (auto simp: closed_under_def)

lemma explored_finish:
  assumes ex: "explored E (path_stack @ [node]) visited'"
    and succs: "\<forall>v. (node, v) \<in> E \<longrightarrow> v \<in> visited' - set (path_stack @ [node])"
    and node: "node \<notin> set path_stack"
  shows "explored E path_stack visited'"
proof -
  define B where "B = visited' - set (path_stack @ [node])"
  from ex have sub: "set (path_stack @ [node]) \<subseteq> visited'" and cl: "closed_under E B"
    and cf: "cycle_free E B"
    by (simp_all add: explored_def B_def)
  from sub have nv: "node \<in> visited'" and sub': "set path_stack \<subseteq> visited'" by simp_all
  have nB: "node \<notin> B" by (simp add: B_def)
  have B': "visited' - set path_stack = insert node B"
  proof (intro equalityI subsetI)
    fix x assume "x \<in> visited' - set path_stack"
    then show "x \<in> insert node B" by (simp add: B_def)
  next
    fix x assume "x \<in> insert node B"
    then show "x \<in> visited' - set path_stack" using nv node by (auto simp: B_def)
  qed
  from succs have succs': "\<And>v. (node, v) \<in> E \<Longrightarrow> v \<in> B" by (simp add: B_def)
  have "closed_under E (insert node B)"
    unfolding closed_under_def
  proof (intro ballI allI impI)
    fix u v assume u: "u \<in> insert node B" and uv: "(u, v) \<in> E"
    show "v \<in> insert node B"
    proof (cases "u = node")
      case True
      with uv succs' show ?thesis by simp
    next
      case False
      with u have "u \<in> B" by simp
      with cl uv show ?thesis unfolding closed_under_def by blast
    qed
  qed
  moreover have "cycle_free E (insert node B)"
    unfolding cycle_free_def
  proof
    fix u assume u: "u \<in> insert node B"
    show "(u, u) \<notin> E\<^sup>+"
    proof (cases "u = node")
      case False
      with u have "u \<in> B" by simp
      with cf show ?thesis unfolding cycle_free_def by blast
    next
      case True
      show ?thesis
      proof
        assume "(u, u) \<in> E\<^sup>+"
        then have "(node, node) \<in> E\<^sup>+" by (simp add: True)
        then obtain v where nv': "(node, v) \<in> E" and vn: "(v, node) \<in> E\<^sup>*"
          by (blast dest: tranclD)
        from nv' have "v \<in> B" by (rule succs')
        with cl vn have "node \<in> B" by (rule closed_under_rtrancl)
        with nB show False by simp
      qed
    qed
  qed
  ultimately show ?thesis using sub' by (simp add: explored_def B')
qed

text \<open>
  A call that returns no cycle marks its node, never unmarks one, and leaves the finished
  nodes closed under the edges and free of cycles.
\<close>

lemma dfs_no_cycle:
  "explored (set G) path_stack visited \<Longrightarrow>
     dfs frames rank G node path_stack visited = Inr (result, visited') \<Longrightarrow> \<not> truthy result \<Longrightarrow>
     visited \<subseteq> visited' \<and> node \<in> visited' - set path_stack
     \<and> explored (set G) path_stack visited'"
  "explored (set G) path_stack visited \<Longrightarrow>
     dfs_neighbors frames rank G ns path_stack visited = Inr (result, visited') \<Longrightarrow>
     \<not> truthy result \<Longrightarrow>
     visited \<subseteq> visited' \<and> set ns \<subseteq> visited' - set path_stack
     \<and> explored (set G) path_stack visited'"
proof (induction frames rank G node path_stack visited and frames rank G ns path_stack visited
    arbitrary: result visited' and result visited' rule: dfs_dfs_neighbors.induct)
  case (1 rank G node path_stack visited)
  then show ?case by (simp add: dfs_no_frame)
next
  case (2 frames rank G node path_stack visited)
  show ?case
  proof (cases "node \<in> set path_stack")
    case True
    with "2.prems"(2,3) show ?thesis by (auto simp: dfs_in_stack truthy_def)
  next
    case notin: False
    show ?thesis
    proof (cases "node \<in> visited")
      case True
      with notin "2.prems"(1,2) show ?thesis by (auto simp: dfs_explored)
    next
      case False
      have "insert node visited - set (path_stack @ [node]) = visited - set path_stack"
        using False by auto
      with "2.prems"(1) have pre: "explored (set G) (path_stack @ [node]) (insert node visited)"
        by (auto simp: explored_def)
      from "2.prems"(2) have r: "dfs_neighbors frames rank G (neighbors rank G node)
          (path_stack @ [node]) (insert node visited) = Inr (result, visited')"
        by (simp add: dfs_fresh [OF notin False])
      from "2.IH" [OF notin False pre r "2.prems"(3)]
      have sub: "insert node visited \<subseteq> visited'"
        and nb: "set (neighbors rank G node) \<subseteq> visited' - set (path_stack @ [node])"
        and ex: "explored (set G) (path_stack @ [node]) visited'"
        by simp_all
      from nb have "\<forall>v. (node, v) \<in> set G \<longrightarrow> v \<in> visited' - set (path_stack @ [node])"
        by (auto simp: set_neighbors)
      with ex have "explored (set G) path_stack visited'"
        using notin by (rule explored_finish)
      with sub notin show ?thesis by auto
    qed
  qed
next
  case (3 frames rank G path_stack visited)
  then show ?case by (simp add: dfs_neighbors.simps)
next
  case (4 frames rank G neighbor rest path_stack visited)
  show ?case
  proof (cases "dfs frames rank G neighbor path_stack visited")
    case (Inl err)
    with "4.prems"(2) show ?thesis by (simp add: dfs_neighbors_raise)
  next
    case (Inr b)
    obtain x y where b: "b = (x, y)" by (cases b)
    with Inr have d: "dfs frames rank G neighbor path_stack visited = Inr (x, y)" by simp
    show ?thesis
    proof (cases "truthy x")
      case True
      with d "4.prems"(2,3) show ?thesis by (simp add: dfs_neighbors_found)
    next
      case False
      from "4.IH"(1) [OF "4.prems"(1) d False]
      have sub1: "visited \<subseteq> y" and n1: "neighbor \<in> y - set path_stack"
        and ex1: "explored (set G) path_stack y"
        by simp_all
      from "4.prems"(2) have r: "dfs_neighbors frames rank G rest path_stack y = Inr (result, visited')"
        by (simp add: dfs_neighbors_next [OF d False])
      from "4.IH"(2) [OF Inr b [symmetric] False ex1 r "4.prems"(3)]
      have sub2: "y \<subseteq> visited'" and n2: "set rest \<subseteq> visited' - set path_stack"
        and ex2: "explored (set G) path_stack visited'"
        by simp_all
      from sub1 sub2 n1 n2 ex2 show ?thesis by auto
    qed
  qed
qed

subsection \<open>A reported cycle lies on the active path\<close>

lemma index_of_less: "x \<in> set xs \<Longrightarrow> index_of xs x < length xs"
  unfolding index_of_def by (induction xs) auto

lemma nth_index_of: "x \<in> set xs \<Longrightarrow> xs ! index_of xs x = x"
  unfolding index_of_def by (induction xs) auto

lemma hd_drop_index_of: "x \<in> set xs \<Longrightarrow> hd (drop (index_of xs x) xs) = x"
  by (simp add: hd_drop_conv_nth index_of_less nth_index_of)

lemma last_drop_index_of: "x \<in> set xs \<Longrightarrow> last (drop (index_of xs x) xs) = last xs"
  by (simp add: index_of_less)

lemma successively_reach_last:
  "successively (\<lambda>a b. (a, b) \<in> E) xs \<Longrightarrow> x \<in> set xs \<Longrightarrow> (x, last xs) \<in> E\<^sup>*"
proof (induction xs arbitrary: x)
  case Nil
  then show ?case by simp
next
  case (Cons a xs)
  show ?case
  proof (cases "xs = []")
    case True
    with Cons.prems show ?thesis by simp
  next
    case False
    with Cons.prems(1) have step: "(a, hd xs) \<in> E" and rest: "successively (\<lambda>a b. (a, b) \<in> E) xs"
      by (simp_all add: successively_Cons)
    from False have "hd xs \<in> set xs" by simp
    with rest have "(hd xs, last xs) \<in> E\<^sup>*" by (rule Cons.IH)
    with step have a: "(a, last xs) \<in> E\<^sup>*" by (rule converse_rtrancl_into_rtrancl)
    show ?thesis
    proof (cases "x = a")
      case True
      with a False show ?thesis by simp
    next
      case neq: False
      with Cons.prems(2) have "x \<in> set xs" by simp
      with rest have "(x, last xs) \<in> E\<^sup>*" by (rule Cons.IH)
      with False show ?thesis by simp
    qed
  qed
qed

lemma successively_reach_hd:
  "successively (\<lambda>a b. (a, b) \<in> E) xs \<Longrightarrow> x \<in> set xs \<Longrightarrow> (hd xs, x) \<in> E\<^sup>*"
proof (induction xs arbitrary: x)
  case Nil
  then show ?case by simp
next
  case (Cons a xs)
  show ?case
  proof (cases "x = a")
    case True
    then show ?thesis by simp
  next
    case False
    with Cons.prems(2) have x: "x \<in> set xs" by simp
    then have ne: "xs \<noteq> []" by auto
    with Cons.prems(1) have step: "(a, hd xs) \<in> E" and rest: "successively (\<lambda>a b. (a, b) \<in> E) xs"
      by (simp_all add: successively_Cons)
    from rest x have "(hd xs, x) \<in> E\<^sup>*" by (rule Cons.IH)
    with step show ?thesis by (simp add: converse_rtrancl_into_rtrancl)
  qed
qed

lemma active_path_cycle_reachable:
  assumes "active_path_cycle E src c"
  shows "\<exists>n. (src, n) \<in> E\<^sup>* \<and> (n, n) \<in> E\<^sup>+"
proof -
  from assms obtain before cyc where ne: "cyc \<noteq> []" and hd: "hd (before @ cyc) = src"
    and path: "successively (\<lambda>a b. (a, b) \<in> E) (before @ cyc)"
    and closing: "(last cyc, hd cyc) \<in> E"
    unfolding active_path_cycle_def by blast
  from ne have node: "hd cyc \<in> set (before @ cyc)" by simp
  from path node have "(src, hd cyc) \<in> E\<^sup>*" unfolding hd [symmetric] by (rule successively_reach_hd)
  moreover from path node have "(hd cyc, last (before @ cyc)) \<in> E\<^sup>*"
    by (rule successively_reach_last)
  with ne closing have "(hd cyc, hd cyc) \<in> E\<^sup>+" by (simp add: rtrancl_into_trancl1)
  ultimately show ?thesis by blast
qed

lemma active_path_cycle_nonempty: "active_path_cycle E src c \<Longrightarrow> c \<noteq> []"
  unfolding active_path_cycle_def by auto

lemma active_path_cycle_closing:
  assumes "node \<in> set path_stack" and "distinct path_stack"
    and "successively (\<lambda>a b. (a, b) \<in> E) path_stack" and "(last path_stack, node) \<in> E"
  shows "active_path_cycle E (hd path_stack) (drop (index_of path_stack node) path_stack @ [node])"
proof -
  define before where "before = take (index_of path_stack node) path_stack"
  define cyc where "cyc = drop (index_of path_stack node) path_stack"
  have whole: "before @ cyc = path_stack" by (simp add: before_def cyc_def)
  have ne: "cyc \<noteq> []" using index_of_less [OF assms(1)] by (simp add: cyc_def)
  have hd: "hd cyc = node" using assms(1) by (simp add: cyc_def hd_drop_index_of)
  have last: "last cyc = last path_stack" using assms(1) by (simp add: cyc_def last_drop_index_of)
  show ?thesis
    unfolding active_path_cycle_def cyc_def [symmetric]
    using ne hd last whole assms(2-4)
    by (intro exI [of _ before] exI [of _ cyc]) simp
qed

lemma dfs_cycle_on_path:
  "distinct path_stack \<Longrightarrow> successively (\<lambda>a b. (a, b) \<in> set G) path_stack \<Longrightarrow>
     (path_stack \<noteq> [] \<longrightarrow> (last path_stack, node) \<in> set G) \<Longrightarrow>
     dfs frames rank G node path_stack visited = Inr (Some c, visited') \<Longrightarrow>
     active_path_cycle (set G) (hd (path_stack @ [node])) c"
  "distinct path_stack \<Longrightarrow> successively (\<lambda>a b. (a, b) \<in> set G) path_stack \<Longrightarrow>
     path_stack \<noteq> [] \<Longrightarrow> (\<forall>n\<in>set ns. (last path_stack, n) \<in> set G) \<Longrightarrow>
     dfs_neighbors frames rank G ns path_stack visited = Inr (Some c, visited') \<Longrightarrow>
     active_path_cycle (set G) (hd path_stack) c"
proof (induction frames rank G node path_stack visited and frames rank G ns path_stack visited
    arbitrary: c visited' and c visited' rule: dfs_dfs_neighbors.induct)
  case (1 rank G node path_stack visited)
  then show ?case by (simp add: dfs_no_frame)
next
  case (2 frames rank G node path_stack visited)
  show ?case
  proof (cases "node \<in> set path_stack")
    case True
    then have ne: "path_stack \<noteq> []" by auto
    from True "2.prems"(4) have c: "c = drop (index_of path_stack node) path_stack @ [node]"
      by (simp add: dfs_in_stack)
    from active_path_cycle_closing [OF True "2.prems"(1,2)] "2.prems"(3) ne
    show ?thesis by (simp add: c)
  next
    case notin: False
    show ?thesis
    proof (cases "node \<in> visited")
      case True
      with notin "2.prems"(4) show ?thesis by (simp add: dfs_explored)
    next
      case False
      have d: "distinct (path_stack @ [node])" using notin "2.prems"(1) by simp
      have s: "successively (\<lambda>a b. (a, b) \<in> set G) (path_stack @ [node])"
        using "2.prems"(2,3) by (auto simp: successively_append_iff)
      have n: "\<forall>n\<in>set (neighbors rank G node). (last (path_stack @ [node]), n) \<in> set G"
        by (simp add: set_neighbors)
      from "2.prems"(4) have r: "dfs_neighbors frames rank G (neighbors rank G node)
          (path_stack @ [node]) (insert node visited) = Inr (Some c, visited')"
        by (simp add: dfs_fresh [OF notin False])
      from "2.IH" [OF notin False d s _ n r] show ?thesis by simp
    qed
  qed
next
  case (3 frames rank G path_stack visited)
  then show ?case by (simp add: dfs_neighbors.simps)
next
  case (4 frames rank G neighbor rest path_stack visited)
  from "4.prems"(4) have nb: "path_stack \<noteq> [] \<longrightarrow> (last path_stack, neighbor) \<in> set G"
    and rest: "\<forall>n\<in>set rest. (last path_stack, n) \<in> set G"
    by simp_all
  show ?case
  proof (cases "dfs frames rank G neighbor path_stack visited")
    case (Inl err)
    with "4.prems"(5) show ?thesis by (simp add: dfs_neighbors_raise)
  next
    case (Inr b)
    obtain x y where b: "b = (x, y)" by (cases b)
    with Inr have d: "dfs frames rank G neighbor path_stack visited = Inr (x, y)" by simp
    show ?thesis
    proof (cases "truthy x")
      case True
      with d "4.prems"(5) have "dfs frames rank G neighbor path_stack visited = Inr (Some c, visited')"
        by (simp add: dfs_neighbors_found)
      from "4.IH"(1) [OF "4.prems"(1,2) nb this] "4.prems"(3) show ?thesis by simp
    next
      case False
      with d "4.prems"(5)
      have "dfs_neighbors frames rank G rest path_stack y = Inr (Some c, visited')"
        by (simp add: dfs_neighbors_next)
      from "4.IH"(2) [OF Inr b [symmetric] False "4.prems"(1,2,3) rest this] show ?thesis .
    qed
  qed
qed

subsection \<open>Enough frames\<close>

lemma neighbors_in_Field: "set (neighbors rank G node) \<subseteq> Field (set G)"
  by (auto simp: set_neighbors Field_def)

lemma dfs_returns:
  "card (insert node (Field (set G)) - set path_stack) < frames \<Longrightarrow>
     \<exists>r. dfs frames rank G node path_stack visited = Inr r"
  "set ns \<subseteq> Field (set G) \<Longrightarrow> card (Field (set G) - set path_stack) < frames \<Longrightarrow>
     \<exists>r. dfs_neighbors frames rank G ns path_stack visited = Inr r"
proof (induction frames rank G node path_stack visited and frames rank G ns path_stack visited
    rule: dfs_dfs_neighbors.induct)
  case (1 rank G node path_stack visited)
  then show ?case by simp
next
  case (2 frames rank G node path_stack visited)
  show ?case
  proof (cases "node \<in> set path_stack \<or> node \<in> visited")
    case True
    then show ?thesis by (auto simp: dfs.simps)
  next
    case False
    then have notin: "node \<notin> set path_stack" and fresh: "node \<notin> visited" by simp_all
    have fin: "finite (Field (set G) - set (path_stack @ [node]))" by (simp add: finite_Field)
    have "insert node (Field (set G)) - set path_stack
        = insert node (Field (set G) - set (path_stack @ [node]))"
      using notin by auto
    then have "card (insert node (Field (set G)) - set path_stack)
        = Suc (card (Field (set G) - set (path_stack @ [node])))"
      using fin by simp
    with "2.prems" have "card (Field (set G) - set (path_stack @ [node])) < frames" by simp
    from "2.IH" [OF notin fresh neighbors_in_Field this] show ?thesis
      by (simp add: dfs_fresh [OF notin fresh])
  qed
next
  case (3 frames rank G path_stack visited)
  then show ?case by (simp add: dfs_neighbors.simps)
next
  case (4 frames rank G neighbor rest path_stack visited)
  from "4.prems"(1) have "insert neighbor (Field (set G)) = Field (set G)" by auto
  with "4.prems"(2) have "card (insert neighbor (Field (set G)) - set path_stack) < frames" by simp
  from "4.IH"(1) [OF this] obtain b where Inr: "dfs frames rank G neighbor path_stack visited = Inr b"
    by blast
  obtain x y where b: "b = (x, y)" by (cases b)
  with Inr have d: "dfs frames rank G neighbor path_stack visited = Inr (x, y)" by simp
  show ?case
  proof (cases "truthy x")
    case True
    with d show ?thesis by (simp add: dfs_neighbors_found)
  next
    case False
    from "4.prems"(1) have "set rest \<subseteq> Field (set G)" by simp
    from "4.IH"(2) [OF Inr b [symmetric] False this "4.prems"(2)] show ?thesis
      by (simp add: dfs_neighbors_next [OF d False])
  qed
qed

text \<open>More frames do not change what a call returns.\<close>

lemma dfs_more_frames:
  "dfs frames rank G node path_stack visited = Inr r \<Longrightarrow> frames \<le> frames' \<Longrightarrow>
     dfs frames' rank G node path_stack visited = Inr r"
  "dfs_neighbors frames rank G ns path_stack visited = Inr r \<Longrightarrow> frames \<le> frames' \<Longrightarrow>
     dfs_neighbors frames' rank G ns path_stack visited = Inr r"
proof (induction frames rank G node path_stack visited and frames rank G ns path_stack visited
    arbitrary: r frames' and r frames' rule: dfs_dfs_neighbors.induct)
  case (1 rank G node path_stack visited)
  then show ?case by (simp add: dfs_no_frame)
next
  case (2 frames rank G node path_stack visited)
  from "2.prems"(2) obtain k where k: "frames' = Suc k" and le: "frames \<le> k"
    by (cases frames') simp_all
  show ?case
  proof (cases "node \<in> set path_stack \<or> node \<in> visited")
    case True
    with "2.prems"(1) show ?thesis unfolding k by (auto simp: dfs.simps)
  next
    case False
    then have notin: "node \<notin> set path_stack" and fresh: "node \<notin> visited" by simp_all
    from "2.prems"(1) have "dfs_neighbors frames rank G (neighbors rank G node)
        (path_stack @ [node]) (insert node visited) = Inr r"
      by (simp add: dfs_fresh [OF notin fresh])
    from "2.IH" [OF notin fresh this le] show ?thesis
      unfolding k by (simp add: dfs_fresh [OF notin fresh])
  qed
next
  case (3 frames rank G path_stack visited)
  then show ?case by (simp add: dfs_neighbors.simps)
next
  case (4 frames rank G neighbor rest path_stack visited)
  show ?case
  proof (cases "dfs frames rank G neighbor path_stack visited")
    case (Inl err)
    with "4.prems"(1) show ?thesis by (simp add: dfs_neighbors_raise)
  next
    case (Inr b)
    obtain x y where b: "b = (x, y)" by (cases b)
    with Inr have d: "dfs frames rank G neighbor path_stack visited = Inr (x, y)" by simp
    from "4.IH"(1) [OF d "4.prems"(2)]
    have d': "dfs frames' rank G neighbor path_stack visited = Inr (x, y)" .
    show ?thesis
    proof (cases "truthy x")
      case True
      from "4.prems"(1) have "r = (x, y)" by (simp add: dfs_neighbors_found [OF d True])
      then show ?thesis by (simp add: dfs_neighbors_found [OF d' True])
    next
      case False
      with d "4.prems"(1) have "dfs_neighbors frames rank G rest path_stack y = Inr r"
        by (simp add: dfs_neighbors_next)
      from "4.IH"(2) [OF Inr b [symmetric] False this "4.prems"(2)] show ?thesis
        by (simp add: dfs_neighbors_next [OF d' False])
    qed
  qed
qed

text \<open>
  A descent the traversal cannot avoid: every node of \<open>xs\<close> but the last has the next one
  as its only neighbour, and none of them was visited. With fewer frames than \<open>xs\<close> has
  nodes the traversal runs out of frames.
\<close>

lemma dfs_forced_descent:
  "successively (\<lambda>a b. neighbors rank G a = [b]) xs \<Longrightarrow> distinct xs \<Longrightarrow>
     set xs \<inter> (set path_stack \<union> visited) = {} \<Longrightarrow> frames < length xs \<Longrightarrow>
     dfs frames rank G (hd xs) path_stack visited = Inl RecursionError"
proof (induction frames arbitrary: xs path_stack visited)
  case 0
  show ?case by (rule dfs_no_frame)
next
  case (Suc frames)
  from Suc.prems(4) obtain x0 x1 rest where xs: "xs = x0 # x1 # rest"
    by (cases xs; cases "tl xs") auto
  from Suc.prems(3) have notin: "x0 \<notin> set path_stack" and fresh: "x0 \<notin> visited"
    by (auto simp: xs)
  from Suc.prems(1) have nb: "neighbors rank G x0 = [x1]"
    and succ: "successively (\<lambda>a b. neighbors rank G a = [b]) (x1 # rest)"
    by (simp_all add: xs)
  from Suc.prems(2) have d: "distinct (x1 # rest)" by (simp add: xs)
  from Suc.prems(2,3) have disj: "set (x1 # rest) \<inter> (set (path_stack @ [x0]) \<union> insert x0 visited) = {}"
    by (auto simp: xs)
  from Suc.prems(4) have len: "frames < length (x1 # rest)" by (simp add: xs)
  from Suc.IH [OF succ d disj len]
  have "dfs frames rank G x1 (path_stack @ [x0]) (insert x0 visited) = Inl RecursionError"
    by simp
  then show ?case
    by (simp add: xs dfs_fresh [OF notin fresh] nb dfs_neighbors_raise)
qed

subsection \<open>The detector\<close>

lemma set_is_a_graph: "set (is_a_graph (edges g) src tgt) = insert (src, tgt) (is_a_edges g)"
  by (auto simp: is_a_graph_def is_a_edges_def)

lemma detect_Inr:
  "detect_circular_reference frames rank g src tgt ''is_a'' = Inr r \<longleftrightarrow>
     (\<exists>visited'. dfs frames rank (is_a_graph (edges g) src tgt) src [] {} = Inr (r, visited'))"
  by (auto simp: detect_circular_reference_def split: sum.splits)

lemma detect_sound:
  assumes "detect_circular_reference frames rank g src tgt ''is_a'' = Inr (Some c)"
  shows "active_path_cycle (insert (src, tgt) (is_a_edges g)) src c"
proof -
  let ?G = "is_a_graph (edges g) src tgt"
  from assms obtain visited' where "dfs frames rank ?G src [] {} = Inr (Some c, visited')"
    unfolding detect_Inr by blast
  from dfs_cycle_on_path(1) [OF _ _ _ this] show ?thesis
    by (simp add: set_is_a_graph)
qed

lemma detect_complete:
  assumes "detect_circular_reference frames rank g src tgt ''is_a'' = Inr r" and "\<not> truthy r"
    and "(src, n) \<in> (insert (src, tgt) (is_a_edges g))\<^sup>*"
  shows "(n, n) \<notin> (insert (src, tgt) (is_a_edges g))\<^sup>+"
proof -
  let ?G = "is_a_graph (edges g) src tgt"
  let ?E = "insert (src, tgt) (is_a_edges g)"
  have E: "set ?G = ?E" by (rule set_is_a_graph)
  from assms(1) obtain v where d: "dfs frames rank ?G src [] {} = Inr (r, v)"
    unfolding detect_Inr by blast
  have "explored (set ?G) [] {}"
    by (simp add: explored_def closed_under_def cycle_free_def)
  from dfs_no_cycle(1) [OF this d assms(2)]
  have src: "src \<in> v" and cl: "closed_under ?E v" and cf: "cycle_free ?E v"
    by (simp_all add: explored_def E)
  from cl assms(3) src have "n \<in> v" by (rule closed_under_rtrancl)
  with cf show ?thesis by (simp add: cycle_free_def)
qed

lemma detect_returns:
  assumes "card (Field (insert (src, tgt) (is_a_edges g))) < frames"
  shows "\<exists>r. detect_circular_reference frames rank g src tgt rel = Inr r"
proof (cases "rel = ''is_a''")
  case False
  then show ?thesis by (simp add: detect_circular_reference_def)
next
  case True
  let ?G = "is_a_graph (edges g) src tgt"
  have "src \<in> Field (set ?G)" by (auto simp: set_is_a_graph Field_def)
  then have "insert src (Field (set ?G)) - set [] = Field (set ?G)" by auto
  with assms have "card (insert src (Field (set ?G)) - set []) < frames"
    by (simp add: set_is_a_graph)
  from dfs_returns(1) [OF this, of rank "{}"] show ?thesis
    by (auto simp: True detect_circular_reference_def)
qed

lemma detect_more_frames:
  assumes "detect_circular_reference frames rank g src tgt rel = Inr r" and "frames \<le> frames'"
  shows "detect_circular_reference frames' rank g src tgt rel = Inr r"
proof (cases "rel = ''is_a''")
  case False
  with assms(1) show ?thesis by (simp add: detect_circular_reference_def)
next
  case True
  from assms(1) obtain visited' where
    "dfs frames rank (is_a_graph (edges g) src tgt) src [] {} = Inr (r, visited')"
    unfolding True detect_Inr by blast
  then have "dfs frames' rank (is_a_graph (edges g) src tgt) src [] {} = Inr (r, visited')"
    using assms(2) by (rule dfs_more_frames)
  then show ?thesis unfolding True detect_Inr by blast
qed

text \<open>
  Claim C3, amended. Let \<open>E\<close> be the \<open>is_a\<close> edges of the graph together with the proposed
  edge. The detector returns whenever \<open>E\<close> has fewer nodes than \<^verbatim>\<open>dfs\<close> may nest
  activations, and what it returns with some number of frames it returns with every greater
  number. Whenever it returns for the relation \<open>is_a\<close>, it has returned a non-empty cycle
  path if and only if some node that is reachable from the proposed source in \<open>E\<close> lies on
  a cycle of \<open>E\<close>; and a path it returns is a cycle on an active path: the part of a
  recursion path from the source, from the repeated node (which is on that path once)
  through the end of the path, followed by the repeated node. For any other relation it
  returns \<^verbatim>\<open>None\<close>. And a call of the traversal on a node that is visited and no longer on
  the path (fully explored earlier in the same detector call) reports nothing and changes
  nothing. All of this holds for every iteration order of the neighbour sets.
\<close>

theorem detect_circular_reference_correct:
  "(card (Field (insert (src, tgt) (is_a_edges g))) < frames \<longrightarrow>
      (\<exists>r. detect_circular_reference frames rank g src tgt ''is_a'' = Inr r))
   \<and> (detect_circular_reference frames rank g src tgt ''is_a'' = Inr r \<longrightarrow>
        (frames \<le> more_frames \<longrightarrow>
           detect_circular_reference more_frames rank g src tgt ''is_a'' = Inr r)
      \<and> ((\<exists>c. r = Some c \<and> c \<noteq> []) \<longleftrightarrow>
           (\<exists>n. (src, n) \<in> (insert (src, tgt) (is_a_edges g))\<^sup>*
               \<and> (n, n) \<in> (insert (src, tgt) (is_a_edges g))\<^sup>+))
      \<and> (\<forall>c. r = Some c \<longrightarrow> active_path_cycle (insert (src, tgt) (is_a_edges g)) src c))
   \<and> (rel \<noteq> ''is_a'' \<longrightarrow> detect_circular_reference frames rank g src tgt rel = Inr None)
   \<and> (node \<in> visited \<and> node \<notin> set path_stack \<longrightarrow>
        dfs (Suc left) rank G node path_stack visited = Inr (None, visited))"
proof (intro conjI allI impI iffI)
  assume "card (Field (insert (src, tgt) (is_a_edges g))) < frames"
  then show "\<exists>r. detect_circular_reference frames rank g src tgt ''is_a'' = Inr r"
    by (rule detect_returns)
next
  assume "detect_circular_reference frames rank g src tgt ''is_a'' = Inr r"
    and "frames \<le> more_frames"
  then show "detect_circular_reference more_frames rank g src tgt ''is_a'' = Inr r"
    by (rule detect_more_frames)
next
  assume r: "detect_circular_reference frames rank g src tgt ''is_a'' = Inr r"
    and "\<exists>c. r = Some c \<and> c \<noteq> []"
  then obtain c where "detect_circular_reference frames rank g src tgt ''is_a'' = Inr (Some c)"
    by blast
  then have "active_path_cycle (insert (src, tgt) (is_a_edges g)) src c" by (rule detect_sound)
  then show "\<exists>n. (src, n) \<in> (insert (src, tgt) (is_a_edges g))\<^sup>*
          \<and> (n, n) \<in> (insert (src, tgt) (is_a_edges g))\<^sup>+"
    by (rule active_path_cycle_reachable)
next
  assume r: "detect_circular_reference frames rank g src tgt ''is_a'' = Inr r"
    and "\<exists>n. (src, n) \<in> (insert (src, tgt) (is_a_edges g))\<^sup>*
          \<and> (n, n) \<in> (insert (src, tgt) (is_a_edges g))\<^sup>+"
  then have "truthy r"
    using detect_complete [OF r] by blast
  then show "\<exists>c. r = Some c \<and> c \<noteq> []"
    by (simp add: truthy_def split: option.splits)
next
  fix c assume "detect_circular_reference frames rank g src tgt ''is_a'' = Inr r" and "r = Some c"
  then show "active_path_cycle (insert (src, tgt) (is_a_edges g)) src c"
    by (simp add: detect_sound)
next
  assume "rel \<noteq> ''is_a''"
  then show "detect_circular_reference frames rank g src tgt rel = Inr None"
    by (simp add: detect_circular_reference_def)
next
  assume "node \<in> visited \<and> node \<notin> set path_stack"
  then show "dfs (Suc left) rank G node path_stack visited = Inr (None, visited)"
    by (simp add: dfs_explored)
qed

text \<open>The definitions that evaluate the detector on a concrete graph.\<close>

lemma dfs_unfold:
  "0 < frames \<Longrightarrow>
     dfs frames rank G node path_stack visited =
       (if node \<in> set path_stack then
          Inr (Some (drop (index_of path_stack node) path_stack @ [node]), visited)
        else if node \<in> visited then Inr (None, visited)
        else dfs_neighbors (frames - 1) rank G (neighbors rank G node) (path_stack @ [node])
               (insert node visited))"
  by (cases frames) (simp_all add: dfs.simps)

lemmas eval_detect_defs = detect_circular_reference_def is_a_graph_def dfs_unfold
  dfs_neighbors.simps neighbors_def edge_order_def truthy_def index_of_def new_edge_def
  recursion_limit_def

lemma detect_chain_abc:
  "detect_circular_reference recursion_limit edge_order chain_abc ''c'' ''a'' ''is_a''
     = Inr (Some [''c'', ''a'', ''b'', ''c''])"
  by (simp add: chain_abc_def eval_detect_defs)

lemma detect_diamond:
  "detect_circular_reference recursion_limit edge_order diamond ''a'' ''b'' ''is_a'' = Inr None"
  by (simp add: diamond_def eval_detect_defs)

lemma detect_mutual_instances:
  "detect_circular_reference recursion_limit edge_order mutual_instances ''cat'' ''dog'' ''is_a''
     = Inr (Some [''dog'', ''animal'', ''dog''])"
  by (simp add: mutual_instances_def eval_detect_defs)

lemma few_nodes:
  "card (Field (insert (''cat'', ''dog'') (is_a_edges mutual_instances))) < recursion_limit"
  by (simp add: mutual_instances_def is_a_edges_def new_edge_def card_insert_if
      recursion_limit_def)

text \<open>
  In the graph of the two mutual \<open>has_instance\<close> declarations, \<open>dog\<close> and \<open>animal\<close>
  are each an \<open>is_a\<close> of the other. The proposed edge from \<open>cat\<close> to \<open>dog\<close> is reported
  with the cycle \<open>dog, animal, dog\<close>: the active path is \<open>cat, dog, animal\<close>, and the
  cycle starts at the repeated node \<open>dog\<close>, not at the source. On the graph \<open>diamond\<close> the
  proposed edge from \<open>a\<close> to \<open>b\<close> makes \<open>d\<close> reachable twice and no cycle is reported.
\<close>

theorem detect_circular_reference_correct_witness:
  "card (Field (insert (''cat'', ''dog'') (is_a_edges mutual_instances))) < recursion_limit
   \<and> detect_circular_reference recursion_limit edge_order mutual_instances ''cat'' ''dog'' ''is_a''
       = Inr (Some [''dog'', ''animal'', ''dog''])
   \<and> recursion_limit \<le> 2 * recursion_limit
   \<and> detect_circular_reference (2 * recursion_limit) edge_order mutual_instances ''cat'' ''dog''
        ''is_a'' = Inr (Some [''dog'', ''animal'', ''dog''])
   \<and> (\<exists>n. (''cat'', n) \<in> (insert (''cat'', ''dog'') (is_a_edges mutual_instances))\<^sup>*
          \<and> (n, n) \<in> (insert (''cat'', ''dog'') (is_a_edges mutual_instances))\<^sup>+)
   \<and> active_path_cycle (insert (''cat'', ''dog'') (is_a_edges mutual_instances)) ''cat''
        [''dog'', ''animal'', ''dog'']
   \<and> detect_circular_reference recursion_limit edge_order diamond ''a'' ''b'' ''is_a'' = Inr None
   \<and> \<not> (\<exists>n. (''a'', n) \<in> (insert (''a'', ''b'') (is_a_edges diamond))\<^sup>*
          \<and> (n, n) \<in> (insert (''a'', ''b'') (is_a_edges diamond))\<^sup>+)
   \<and> ''part_of'' \<noteq> ''is_a''
   \<and> detect_circular_reference recursion_limit edge_order mutual_instances ''cat'' ''dog''
        ''part_of'' = Inr None
   \<and> ''d'' \<in> {''a'', ''c'', ''d''} \<and> ''d'' \<notin> set [''a'', ''b'']
   \<and> dfs (Suc 0) edge_order (is_a_graph (edges diamond) ''a'' ''b'') ''d'' [''a'', ''b'']
        {''a'', ''c'', ''d''} = Inr (None, {''a'', ''c'', ''d''})"
proof -
  note inst = detect_circular_reference_correct [where src = "''cat''" and tgt = "''dog''"
      and g = mutual_instances and frames = recursion_limit and rank = edge_order
      and r = "Some [''dog'', ''animal'', ''dog'']" and more_frames = "2 * recursion_limit"
      and rel = "''part_of''" and node = "''d''" and visited = "{''a'', ''c'', ''d''}"
      and path_stack = "[''a'', ''b'']" and left = 0
      and G = "is_a_graph (edges diamond) ''a'' ''b''"]
  note inst2 = detect_circular_reference_correct [where src = "''a''" and tgt = "''b''"
      and g = diamond and frames = recursion_limit and rank = edge_order and r = None]
  have ne: "''part_of'' \<noteq> ''is_a''" by simp
  have v: "''d'' \<in> {''a'', ''c'', ''d''}" "''d'' \<notin> set [''a'', ''b'']" by simp_all
  have le: "recursion_limit \<le> 2 * recursion_limit" by simp
  from inst detect_mutual_instances le
  have "detect_circular_reference (2 * recursion_limit) edge_order mutual_instances ''cat'' ''dog''
        ''is_a'' = Inr (Some [''dog'', ''animal'', ''dog''])"
    by blast
  moreover from inst detect_mutual_instances
  have "\<exists>n. (''cat'', n) \<in> (insert (''cat'', ''dog'') (is_a_edges mutual_instances))\<^sup>*
          \<and> (n, n) \<in> (insert (''cat'', ''dog'') (is_a_edges mutual_instances))\<^sup>+"
    by blast
  moreover from inst detect_mutual_instances
  have "active_path_cycle (insert (''cat'', ''dog'') (is_a_edges mutual_instances)) ''cat''
        [''dog'', ''animal'', ''dog'']"
    by blast
  moreover from inst2 detect_diamond
  have "\<not> (\<exists>n. (''a'', n) \<in> (insert (''a'', ''b'') (is_a_edges diamond))\<^sup>*
          \<and> (n, n) \<in> (insert (''a'', ''b'') (is_a_edges diamond))\<^sup>+)"
    by blast
  moreover from inst ne
  have "detect_circular_reference recursion_limit edge_order mutual_instances ''cat'' ''dog''
        ''part_of'' = Inr None"
    by blast
  moreover from inst v
  have "dfs (Suc 0) edge_order (is_a_graph (edges diamond) ''a'' ''b'') ''d'' [''a'', ''b'']
        {''a'', ''c'', ''d''} = Inr (None, {''a'', ''c'', ''d''})"
    by blast
  ultimately show ?thesis
    using few_nodes detect_mutual_instances detect_diamond ne v le by blast
qed

subsection \<open>A chain longer than the recursion limit\<close>

lemma chain_name_inj [simp]: "chain_name i = chain_name j \<longleftrightarrow> i = j"
  by (simp add: chain_name_def)

lemma is_a_graph_chain:
  "is_a_graph (edges (is_a_chain k)) src tgt =
     map (\<lambda>i. (chain_name i, chain_name (Suc i))) [0..<k] @ [(src, tgt)]"
  by (simp add: is_a_graph_def is_a_chain_def filter_concat comp_def new_edge_def)

lemma filter_chain:
  "filter (\<lambda>p. fst p = chain_name i) (map (\<lambda>j. (chain_name j, chain_name (Suc j))) [0..<k]) =
     (if i < k then [(chain_name i, chain_name (Suc i))] else [])"
  by (induction k) auto

lemma neighbors_chain:
  "neighbors rank (is_a_graph (edges (is_a_chain k)) (chain_name k) (chain_name 0)) (chain_name i) =
     (if i < k then [chain_name (Suc i)] else if i = k then [chain_name 0] else [])"
  by (simp add: neighbors_def is_a_graph_chain filter_chain)

lemma successively_map_upt:
  "(\<And>i. Suc i < k \<Longrightarrow> P (f i) (f (Suc i))) \<Longrightarrow> successively P (map f [0..<k])"
proof (induction k)
  case 0
  show ?case by simp
next
  case (Suc k)
  have "successively P (map f [0..<k])" by (rule Suc.IH) (simp add: Suc.prems)
  moreover have "P (last (map f [0..<k])) (f k)" if "0 < k"
  proof -
    from that obtain j where j: "k = Suc j" by (cases k) simp_all
    then have "last (map f [0..<k]) = f j" by simp
    with Suc.prems [of j] j show ?thesis by simp
  qed
  ultimately show ?case by (auto simp: successively_append_iff)
qed

lemma chain_raises:
  assumes "frames \<le> k"
  shows "detect_circular_reference frames rank (is_a_chain k) (chain_name k) (chain_name 0) ''is_a''
           = Inl RecursionError"
proof -
  let ?G = "is_a_graph (edges (is_a_chain k)) (chain_name k) (chain_name 0)"
  let ?xs = "chain_name k # map chain_name [0..<k]"
  have "successively (\<lambda>a b. neighbors rank ?G a = [b]) (map chain_name [0..<k])"
    by (rule successively_map_upt) (simp add: neighbors_chain)
  moreover have "neighbors rank ?G (chain_name k) = [hd (map chain_name [0..<k])]" if "0 < k"
    using that by (simp add: neighbors_chain hd_map upt_conv_Cons)
  ultimately have s: "successively (\<lambda>a b. neighbors rank ?G a = [b]) ?xs"
    by (cases "k = 0") (simp_all add: successively_Cons)
  have d: "distinct ?xs" by (auto simp: distinct_map inj_on_def)
  have "dfs frames rank ?G (hd ?xs) [] {} = Inl RecursionError"
    using s d by (rule dfs_forced_descent) (use assms in simp_all)
  then show ?thesis by (simp add: detect_circular_reference_def)
qed

lemma is_a_edges_chain:
  "is_a_edges (is_a_chain k) = (\<lambda>i. (chain_name i, chain_name (Suc i))) ` {0..<k}"
  by (simp add: is_a_edges_def is_a_chain_def filter_concat comp_def new_edge_def)

lemma chain_reach:
  "i \<le> k \<Longrightarrow> (chain_name 0, chain_name i) \<in> (is_a_edges (is_a_chain k))\<^sup>*"
proof (induction i)
  case 0
  show ?case by simp
next
  case (Suc i)
  then have "(chain_name 0, chain_name i) \<in> (is_a_edges (is_a_chain k))\<^sup>*" by simp
  moreover have "(chain_name i, chain_name (Suc i)) \<in> is_a_edges (is_a_chain k)"
    using Suc.prems by (simp add: is_a_edges_chain)
  ultimately show ?case by (rule rtrancl_into_rtrancl)
qed

text \<open>
  The graph holds the \<open>is_a\<close> chain of 1001 concepts from \<open>chain_name 0\<close> to
  \<open>chain_name 1000\<close>, and the proposed edge leads from its last concept back to its first.
  The proposed source lies on a cycle of the edges, and the detector returns no cycle path:
  the traversal has to walk the whole chain before it meets the source again, and even with
  as many frames as the recursion limit it raises \<^verbatim>\<open>RecursionError\<close>. (With fewer frames
  it raises just the same: a call that returns with fewer frames returns with more.)
\<close>

theorem long_chain_counterexample:
  "detect_circular_reference recursion_limit edge_order (is_a_chain 1000) (chain_name 1000)
      (chain_name 0) ''is_a'' = Inl RecursionError
   \<and> (chain_name 1000, chain_name 1000)
        \<in> (insert (chain_name 1000, chain_name 0) (is_a_edges (is_a_chain 1000)))\<^sup>*
   \<and> (chain_name 1000, chain_name 1000)
        \<in> (insert (chain_name 1000, chain_name 0) (is_a_edges (is_a_chain 1000)))\<^sup>+"
proof -
  let ?E = "insert (chain_name 1000, chain_name 0) (is_a_edges (is_a_chain 1000))"
  have "(chain_name 0, chain_name 1000) \<in> (is_a_edges (is_a_chain 1000))\<^sup>*"
    by (rule chain_reach) simp
  then have "(chain_name 0, chain_name 1000) \<in> ?E\<^sup>*"
    by (rule rtrancl_mono [THEN subsetD, rotated]) auto
  moreover have "(chain_name 1000, chain_name 0) \<in> ?E" by simp
  ultimately have "(chain_name 1000, chain_name 1000) \<in> ?E\<^sup>+"
    by (rule rtrancl_into_trancl2 [rotated])
  moreover have "detect_circular_reference recursion_limit edge_order (is_a_chain 1000)
      (chain_name 1000) (chain_name 0) ''is_a'' = Inl RecursionError"
    by (rule chain_raises) (simp add: recursion_limit_def)
  ultimately show ?thesis by simp
qed

section \<open>Properties of the graph store\<close>

subsection \<open>The relation table\<close>

text \<open>No relation is its own inverse, no inverse is the empty string, and the table is symmetric.\<close>

lemma relation_table_facts:
  "\<forall>p\<in>set relation_table.
     snd p \<noteq> fst p \<and> snd p \<noteq> [] \<and> relation_inverses (snd p) = Some (fst p)"
  by (simp add: relation_inverses_def relation_table_def)

lemma relation_inverses_in_table:
  "relation_inverses r = Some r' \<Longrightarrow> (r, r') \<in> set relation_table"
  unfolding relation_inverses_def by (rule map_of_SomeD)

lemma relation_inverses_neq: "relation_inverses r = Some r' \<Longrightarrow> r' \<noteq> r"
  using relation_table_facts relation_inverses_in_table by fastforce

lemma relation_inverses_nonempty: "relation_inverses r = Some r' \<Longrightarrow> r' \<noteq> []"
  using relation_table_facts relation_inverses_in_table by fastforce

lemma relation_inverses_symmetric:
  "relation_inverses r = Some r' \<Longrightarrow> relation_inverses r' = Some r"
  using relation_table_facts relation_inverses_in_table by fastforce

subsection \<open>The node dictionary\<close>

lemma update_node_relations_keys:
  "map fst (update_node_relations ns n rel_type tgt) = map fst ns"
proof (cases "map_of ns n")
  case None
  then show ?thesis by (simp add: update_node_relations_def)
next
  case (Some nd)
  then have "n \<in> fst ` set ns" by (auto dest: map_of_SomeD intro: rev_image_eqI)
  with Some show ?thesis
    by (simp add: update_node_relations_def Let_def AList.update_keys)
qed

lemma map_of_update_node_relations:
  "map_of (update_node_relations ns n rel_type tgt) =
     (case map_of ns n of
        None \<Rightarrow> map_of ns
      | Some nd \<Rightarrow>
          (map_of ns)(n \<mapsto> nd\<lparr>relations := (relations nd)(rel_type \<mapsto>
             (let targets = (case relations nd rel_type of None \<Rightarrow> [] | Some ts \<Rightarrow> ts)
              in if tgt \<in> set targets then targets else targets @ [tgt]))\<rparr>))"
  by (simp add: update_node_relations_def Let_def AList.update_conv' split: option.splits)

lemma add_inverse_relation_edges:
  "edges (add_inverse_relation g src rel_type tgt src_file) = edges g \<or>
   (\<exists>e. edges (add_inverse_relation g src rel_type tgt src_file) = edges g @ [e])"
  by (auto simp: add_inverse_relation_def Let_def split: option.splits)

lemma add_inverse_relation_keys:
  "map fst (nodes (add_inverse_relation g src rel_type tgt src_file)) = map fst (nodes g)"
  by (auto simp: add_inverse_relation_def Let_def update_node_relations_keys split: option.splits)

lemma add_inverse_relation_node_absent:
  "map_of (nodes g) n = None \<Longrightarrow>
     map_of (nodes (add_inverse_relation g src rel_type tgt src_file)) n = None"
  by (auto simp: add_inverse_relation_def Let_def map_of_update_node_relations split: option.splits)

lemma add_inverse_relation_node_relations:
  assumes "map_of (nodes g) n = Some nd"
  shows "\<exists>nd'. map_of (nodes (add_inverse_relation g src rel_type tgt src_file)) n = Some nd'
           \<and> relations nd' rel_type = relations nd rel_type"
proof (cases "relation_inverses rel_type")
  case None
  with assms show ?thesis by (simp add: add_inverse_relation_def)
next
  case (Some inverse_type)
  then have "inverse_type \<noteq> rel_type" by (rule relation_inverses_neq)
  with assms Some show ?thesis
    by (auto simp: add_inverse_relation_def Let_def map_of_update_node_relations
        split: option.splits)
qed

subsection \<open>The outcomes of a call\<close>

lemma find_None_edge:
  "find (\<lambda>e'. edge_id e' = k) es = None \<longleftrightarrow> (\<forall>e'\<in>set es. edge_id e' \<noteq> k)"
  by (auto simp: find_None_iff)

lemma find_Some_edge:
  "find (\<lambda>e'. edge_id e' = k) es = Some ex \<Longrightarrow> ex \<in> set es \<and> edge_id ex = k"
  by (auto simp: find_Some_iff)

lemma add_inverse_relation_edges_cases:
  obtains
    (no_inverse) "relation_inverses rel_type = None"
      "edges (add_inverse_relation g src rel_type tgt src_file) = edges g"
  | (existing) inverse_type ex where "relation_inverses rel_type = Some inverse_type"
      "ex \<in> set (edges g)" "edge_id ex = edge_key tgt inverse_type src"
      "edges (add_inverse_relation g src rel_type tgt src_file) = edges g"
  | (appended) inverse_type where "relation_inverses rel_type = Some inverse_type"
      "\<forall>e'\<in>set (edges g). edge_id e' \<noteq> edge_key tgt inverse_type src"
      "edges (add_inverse_relation g src rel_type tgt src_file)
         = edges g @ [new_edge tgt inverse_type src src_file]"
proof (cases "relation_inverses rel_type")
  case None
  then show ?thesis using no_inverse by (simp add: add_inverse_relation_def)
next
  case (Some inverse_type)
  then have ne: "inverse_type \<noteq> []" by (rule relation_inverses_nonempty)
  show ?thesis
  proof (cases "find (\<lambda>e'. edge_id e' = edge_key tgt inverse_type src) (edges g)")
    case None
    then have "\<forall>e'\<in>set (edges g). edge_id e' \<noteq> edge_key tgt inverse_type src"
      by (simp add: find_None_edge)
    moreover have "edges (add_inverse_relation g src rel_type tgt src_file)
         = edges g @ [new_edge tgt inverse_type src src_file]"
      using Some ne None by (simp add: add_inverse_relation_def new_edge_def)
    ultimately show ?thesis using Some by (rule appended [rotated])
  next
    case (Some ex)
    from find_Some_edge [OF this] \<open>relation_inverses rel_type = Some inverse_type\<close> ne Some
    show ?thesis
      using existing [of inverse_type ex] by (simp add: add_inverse_relation_def)
  qed
qed

lemma new_edge_simps [simp]:
  "edge_id (new_edge s r t f) = edge_key s r t" "source (new_edge s r t f) = s"
  "relation (new_edge s r t f) = r" "target (new_edge s r t f) = t"
  by (simp_all add: new_edge_def)

lemma add_relation_cases:
  obtains
    (raised) err where "rel_type = ''is_a''"
      "detect_circular_reference frames rank g src tgt ''is_a'' = Inl err"
      "add_relation frames rank g src rel_type tgt src_file = Inl err"
  | (rejected) cycle where "rel_type = ''is_a''"
      "detect_circular_reference frames rank g src tgt ''is_a'' = Inr cycle" "truthy cycle"
      "add_relation frames rank g src rel_type tgt src_file = Inr g"
  | (duplicate) ex where
      "rel_type = ''is_a'' \<longrightarrow>
         (\<exists>cycle. detect_circular_reference frames rank g src tgt ''is_a'' = Inr cycle
            \<and> \<not> truthy cycle)"
      "find (\<lambda>e'. edge_id e' = edge_key src rel_type tgt) (edges g) = Some ex"
      "add_relation frames rank g src rel_type tgt src_file = Inr g"
  | (appended)
      "rel_type = ''is_a'' \<longrightarrow>
         (\<exists>cycle. detect_circular_reference frames rank g src tgt ''is_a'' = Inr cycle
            \<and> \<not> truthy cycle)"
      "find (\<lambda>e'. edge_id e' = edge_key src rel_type tgt) (edges g) = None"
      "add_relation frames rank g src rel_type tgt src_file =
         Inr (add_inverse_relation
                (g\<lparr>edges := edges g @ [new_edge src rel_type tgt src_file],
                   nodes := update_node_relations (nodes g) src rel_type tgt\<rparr>)
                src rel_type tgt src_file)"
proof -
  let ?check = "if rel_type = ''is_a''
                then detect_circular_reference frames rank g src tgt ''is_a'' else Inr None"
  show ?thesis
  proof (cases ?check)
    case (Inl err)
    then have "rel_type = ''is_a''"
      and "detect_circular_reference frames rank g src tgt ''is_a'' = Inl err"
      by (simp_all split: if_splits)
    moreover from Inl have "add_relation frames rank g src rel_type tgt src_file = Inl err"
      by (simp add: add_relation_def)
    ultimately show ?thesis by (rule raised)
  next
    case (Inr cycle)
    show ?thesis
    proof (cases "truthy cycle")
      case True
      with Inr have "rel_type = ''is_a''"
        and "detect_circular_reference frames rank g src tgt ''is_a'' = Inr cycle"
        by (auto simp: truthy_def split: if_splits)
      moreover from Inr True have "add_relation frames rank g src rel_type tgt src_file = Inr g"
        by (simp add: add_relation_def)
      ultimately show ?thesis using True by (intro rejected [of cycle])
    next
      case False
      with Inr have ok: "rel_type = ''is_a'' \<longrightarrow>
         (\<exists>cycle. detect_circular_reference frames rank g src tgt ''is_a'' = Inr cycle
            \<and> \<not> truthy cycle)"
        by auto
      show ?thesis
      proof (cases "find (\<lambda>e'. edge_id e' = edge_key src rel_type tgt) (edges g)")
        case None
        with Inr False have "add_relation frames rank g src rel_type tgt src_file =
           Inr (add_inverse_relation
                  (g\<lparr>edges := edges g @ [new_edge src rel_type tgt src_file],
                     nodes := update_node_relations (nodes g) src rel_type tgt\<rparr>)
                  src rel_type tgt src_file)"
          by (simp add: add_relation_def new_edge_def)
        with ok None show ?thesis by (rule appended)
      next
        case (Some ex)
        with Inr False have "add_relation frames rank g src rel_type tgt src_file = Inr g"
          by (simp add: add_relation_def)
        with ok Some show ?thesis by (rule duplicate)
      qed
    qed
  qed
qed

text \<open>For a relation other than \<open>is_a\<close> the cycle detector is not consulted.\<close>

lemma add_relation_not_is_a:
  "rel_type \<noteq> ''is_a'' \<Longrightarrow>
     add_relation frames rank g src rel_type tgt src_file =
       Inr (case find (\<lambda>e'. edge_id e' = edge_key src rel_type tgt) (edges g) of
              Some existing \<Rightarrow> g
            | None \<Rightarrow>
                add_inverse_relation
                  (g\<lparr>edges := edges g @ [new_edge src rel_type tgt src_file],
                     nodes := update_node_relations (nodes g) src rel_type tgt\<rparr>)
                  src rel_type tgt src_file)"
  unfolding add_relation_def new_edge_def Let_def by (simp add: truthy_def)

lemma add_relation_rejected:
  "detect_circular_reference frames rank g src tgt ''is_a'' = Inr cycle \<Longrightarrow> truthy cycle \<Longrightarrow>
     add_relation frames rank g src ''is_a'' tgt src_file = Inr g"
  by (simp add: add_relation_def)

subsection \<open>What a call does to the node of its source\<close>

text \<open>
  Claim C9, amended. When \<^verbatim>\<open>_add_relation\<close> appends a new edge (for \<open>is_a\<close> the cycle
  check has returned and found no cycle, and no edge has the id of the new one), the call
  returns, the new edge stands right after the old edges, and what follows it is its inverse
  edge, if the relation has an inverse in the relation table and no edge has the id of the
  inverse edge, and nothing otherwise. The node dictionary keeps its keys: no node is
  created. If the source is in the dictionary, its \<open>relations\<close> map the relation type
  afterwards to the old target list (the empty list when there was none) with the target
  appended, unless the target was in the list already. If the source is not in the
  dictionary, it is not in it afterwards either.
\<close>

theorem add_relation_source_node:
  assumes "rel_type = ''is_a'' \<longrightarrow>
         (\<exists>cycle. detect_circular_reference frames rank g src tgt ''is_a'' = Inr cycle
            \<and> \<not> truthy cycle)"
    and "find (\<lambda>e'. edge_id e' = edge_key src rel_type tgt) (edges g) = None"
  shows "\<exists>g'. add_relation frames rank g src rel_type tgt src_file = Inr g'
       \<and> edges g' =
           edges g @ new_edge src rel_type tgt src_file #
             (case relation_inverses rel_type of
                None \<Rightarrow> []
              | Some inverse_type \<Rightarrow>
                  if edge_key tgt inverse_type src
                       \<in> set (map edge_id (edges g @ [new_edge src rel_type tgt src_file]))
                  then [] else [new_edge tgt inverse_type src src_file])
       \<and> map fst (nodes g') = map fst (nodes g)
       \<and> (\<forall>nd. map_of (nodes g) src = Some nd \<longrightarrow>
            (\<exists>nd'. map_of (nodes g') src = Some nd'
               \<and> relations nd' rel_type = Some (appended_targets nd rel_type tgt)))
       \<and> (map_of (nodes g) src = None \<longrightarrow> map_of (nodes g') src = None)"
proof -
  let ?e = "new_edge src rel_type tgt src_file"
  let ?g1 = "g\<lparr>edges := edges g @ [?e],
               nodes := update_node_relations (nodes g) src rel_type tgt\<rparr>"
  let ?g' = "add_inverse_relation ?g1 src rel_type tgt src_file"
  have g': "add_relation frames rank g src rel_type tgt src_file = Inr ?g'"
  proof (cases rule: add_relation_cases [of rel_type frames rank g src tgt src_file])
    case (raised err)
    with assms(1) show ?thesis by auto
  next
    case (rejected cycle)
    with assms(1) show ?thesis by auto
  next
    case (duplicate ex)
    with assms(2) show ?thesis by simp
  next
    case appended
    then show ?thesis by simp
  qed
  have e: "edges ?g' =
           edges g @ ?e #
             (case relation_inverses rel_type of
                None \<Rightarrow> []
              | Some inverse_type \<Rightarrow>
                  if edge_key tgt inverse_type src \<in> set (map edge_id (edges g @ [?e]))
                  then [] else [new_edge tgt inverse_type src src_file])"
  proof (cases rule: add_inverse_relation_edges_cases [of rel_type ?g1 src tgt src_file])
    case no_inverse
    then show ?thesis by simp
  next
    case (existing inverse_type ex)
    from existing(2,3) have "edge_key tgt inverse_type src \<in> set (map edge_id (edges g @ [?e]))"
      by (auto intro: rev_image_eqI)
    with existing(1,4) show ?thesis by simp
  next
    case (appended inverse_type)
    from appended(2) have "edge_key tgt inverse_type src \<notin> set (map edge_id (edges g @ [?e]))"
      by auto
    with appended(1,3) show ?thesis by simp
  qed
  have k: "map fst (nodes ?g') = map fst (nodes g)"
    by (simp add: add_inverse_relation_keys update_node_relations_keys)
  have present: "\<exists>nd'. map_of (nodes ?g') src = Some nd'
               \<and> relations nd' rel_type = Some (appended_targets nd rel_type tgt)"
    if nd: "map_of (nodes g) src = Some nd" for nd
  proof -
    let ?nd1 = "nd\<lparr>relations := (relations nd)(rel_type \<mapsto> appended_targets nd rel_type tgt)\<rparr>"
    have "map_of (nodes ?g1) src = Some ?nd1"
      using nd by (simp add: map_of_update_node_relations appended_targets_def)
    from add_inverse_relation_node_relations [OF this, of src rel_type tgt src_file]
    show ?thesis by simp
  qed
  have absent: "map_of (nodes ?g') src = None" if "map_of (nodes g) src = None"
    using that by (intro add_inverse_relation_node_absent) (simp add: map_of_update_node_relations)
  show ?thesis
  proof (intro exI [of _ ?g'] conjI allI impI)
    show "add_relation frames rank g src rel_type tgt src_file = Inr ?g'" by (rule g')
    show "edges ?g' =
           edges g @ ?e #
             (case relation_inverses rel_type of
                None \<Rightarrow> []
              | Some inverse_type \<Rightarrow>
                  if edge_key tgt inverse_type src \<in> set (map edge_id (edges g @ [?e]))
                  then [] else [new_edge tgt inverse_type src src_file])"
      by (rule e)
    show "map fst (nodes ?g') = map fst (nodes g)" by (rule k)
  next
    fix nd assume "map_of (nodes g) src = Some nd"
    then show "\<exists>nd'. map_of (nodes ?g') src = Some nd'
               \<and> relations nd' rel_type = Some (appended_targets nd rel_type tgt)"
      by (rule present)
  next
    assume "map_of (nodes g) src = None"
    then show "map_of (nodes ?g') src = None" by (rule absent)
  qed
qed

subsection \<open>No edge is stored twice\<close>

lemma add_relation_edge_ids_ok:
  assumes ok: "edge_ids_ok (edges g)"
    and g': "add_relation frames rank g src rel_type tgt src_file = Inr g'"
  shows "edge_ids_ok (edges g')"
proof (cases rule: add_relation_cases [of rel_type frames rank g src tgt src_file])
  case (raised err)
  with g' show ?thesis by simp
next
  case (rejected cycle)
  with g' ok show ?thesis by simp
next
  case (duplicate ex)
  with g' ok show ?thesis by simp
next
  case appended
  let ?e = "new_edge src rel_type tgt src_file"
  let ?g1 = "g\<lparr>edges := edges g @ [?e],
               nodes := update_node_relations (nodes g) src rel_type tgt\<rparr>"
  from appended(3) g' have g'_eq: "g' = add_inverse_relation ?g1 src rel_type tgt src_file"
    by simp
  from appended(2) have fresh: "\<forall>e'\<in>set (edges g). edge_id e' \<noteq> edge_key src rel_type tgt"
    by (simp add: find_None_edge)
  with ok have ok1: "edge_ids_ok (edges g @ [?e])"
    by (auto simp: edge_ids_ok_def)
  show ?thesis
  proof (cases rule: add_inverse_relation_edges_cases [of rel_type ?g1 src tgt src_file])
    case no_inverse
    with ok1 show ?thesis by (simp add: g'_eq)
  next
    case (existing inverse_type ex)
    with ok1 show ?thesis by (simp add: g'_eq)
  next
    case (appended inverse_type)
    with ok1 show ?thesis by (auto simp: g'_eq edge_ids_ok_def)
  qed
qed

lemma add_relations_edge_ids_ok:
  "edge_ids_ok (edges g) \<Longrightarrow> edge_ids_ok (edges (fst (add_relations frames rank g ops)))"
proof (induction ops arbitrary: g)
  case Nil
  then show ?case by simp
next
  case (Cons op ops)
  obtain src rel_type tgt src_file where op: "op = (src, rel_type, tgt, src_file)"
    by (cases op)
  show ?case
  proof (cases "add_relation frames rank g src rel_type tgt src_file")
    case (Inl err)
    with Cons.prems show ?thesis by (simp add: op)
  next
    case (Inr g')
    with Cons.prems have "edge_ids_ok (edges g')" by (rule add_relation_edge_ids_ok)
    then have "edge_ids_ok (edges (fst (add_relations frames rank g' ops)))" by (rule Cons.IH)
    with Inr show ?thesis by (simp add: op)
  qed
qed

lemma length_filter_at_most_one:
  assumes "distinct (map f xs)" and "\<forall>y\<in>set xs. P y \<longrightarrow> f y = k"
  shows "length (filter P xs) \<le> 1"
proof -
  from assms(1) have d: "distinct xs" and inj: "inj_on f (set xs)"
    by (simp_all add: distinct_map)
  have "card ({y. P y} \<inter> set xs) \<le> 1"
  proof (rule card_le_Suc0_iff_eq [THEN iffD2, unfolded One_nat_def [symmetric]])
    show "finite ({y. P y} \<inter> set xs)" by simp
    show "\<forall>a\<in>{y. P y} \<inter> set xs. \<forall>b\<in>{y. P y} \<inter> set xs. a = b"
      using assms(2) inj by (auto simp: inj_on_def)
  qed
  with distinct_length_filter [OF d, of P] show ?thesis by simp
qed

lemma edge_ids_ok_count_le:
  assumes "edge_ids_ok es"
  shows "length (filter (\<lambda>e'. source e' = s \<and> relation e' = r \<and> target e' = t) es) \<le> 1"
proof (rule length_filter_at_most_one [where f = edge_id and k = "edge_key s r t"])
  show "distinct (map edge_id es)" using assms by (simp add: edge_ids_ok_def)
  show "\<forall>y\<in>set es. source y = s \<and> relation y = r \<and> target y = t \<longrightarrow> edge_id y = edge_key s r t"
    using assms by (auto simp: edge_ids_ok_def)
qed

lemma edge_ids_ok_count:
  assumes "edge_ids_ok es" and "e \<in> set es"
  shows "length (filter (\<lambda>e'. source e' = source e \<and> relation e' = relation e
            \<and> target e' = target e) es) = 1"
proof -
  let ?same = "filter (\<lambda>e'. source e' = source e \<and> relation e' = relation e
            \<and> target e' = target e) es"
  from assms(2) have "e \<in> set ?same" by simp
  then have "length ?same \<noteq> 0" by (auto simp del: set_filter)
  moreover have "length ?same \<le> 1"
    using assms(1) by (rule edge_ids_ok_count_le)
  ultimately show ?thesis by arith
qed

subsection \<open>Inverse edges are complete when edge ids do not collide\<close>

lemma add_relation_edges_ok:
  assumes ok: "edges_ok T (edges g)"
    and inj: "inj_on (\<lambda>(s, r, t). edge_key s r t) T"
    and inT: "(src, rel_type, tgt) \<in> T"
    and invT: "\<And>r'. relation_inverses rel_type = Some r' \<Longrightarrow> (tgt, r', src) \<in> T"
    and g': "add_relation frames rank g src rel_type tgt src_file = Inr g'"
  shows "edges_ok T (edges g')"
proof (cases rule: add_relation_cases [of rel_type frames rank g src tgt src_file])
  case (raised err)
  with g' show ?thesis by simp
next
  case (rejected cycle)
  with g' ok show ?thesis by simp
next
  case (duplicate ex)
  with g' ok show ?thesis by simp
next
  case appended
  let ?e = "new_edge src rel_type tgt src_file"
  let ?g1 = "g\<lparr>edges := edges g @ [?e],
               nodes := update_node_relations (nodes g) src rel_type tgt\<rparr>"
  from appended(3) g' have g': "g' = add_inverse_relation ?g1 src rel_type tgt src_file"
    by simp
  from appended(2) have fresh: "\<forall>e'\<in>set (edges g). edge_id e' \<noteq> edge_key src rel_type tgt"
    by (simp add: find_None_edge)
  from ok have a: "\<forall>e\<in>set (edges g). edge_id e = edge_key (source e) (relation e) (target e)
      \<and> (source e, relation e, target e) \<in> T"
    and b: "distinct (map edge_id (edges g))"
    and c: "\<forall>e\<in>set (edges g). \<forall>r'. relation_inverses (relation e) = Some r' \<longrightarrow>
        (\<exists>e'\<in>set (edges g). source e' = target e \<and> relation e' = r' \<and> target e' = source e)"
    by (simp_all add: edges_ok_def)
  show ?thesis
  proof (cases rule: add_inverse_relation_edges_cases [of rel_type ?g1 src tgt src_file])
    case no_inverse
    have "edges_ok T (edges g @ [?e])"
      unfolding edges_ok_def using a b c fresh inT no_inverse(1) by auto
    with no_inverse(2) show ?thesis by (simp add: g')
  next
    case (existing inverse_type ex)
    from existing(2) have exin: "ex \<in> set (edges g @ [?e])" by simp
    have exkey: "edge_id ex = edge_key (source ex) (relation ex) (target ex)"
      and exT: "(source ex, relation ex, target ex) \<in> T"
      using exin a inT by auto
    have "(tgt, inverse_type, src) \<in> T" using existing(1) by (rule invT)
    with inj exT exkey existing(3)
    have "(source ex, relation ex, target ex) = (tgt, inverse_type, src)"
      by (auto dest!: inj_onD [where x = "(source ex, relation ex, target ex)"
            and y = "(tgt, inverse_type, src)"])
    then have ex: "source ex = tgt" "relation ex = inverse_type" "target ex = src" by simp_all
    have "edges_ok T (edges g @ [?e])"
      unfolding edges_ok_def
    proof (intro conjI ballI allI impI)
      fix e assume "e \<in> set (edges g @ [?e])"
      then show "edge_id e = edge_key (source e) (relation e) (target e)"
        and "(source e, relation e, target e) \<in> T"
        using a inT by auto
    next
      show "distinct (map edge_id (edges g @ [?e]))" using b fresh by auto
    next
      fix e r' assume e: "e \<in> set (edges g @ [?e])"
        and r': "relation_inverses (relation e) = Some r'"
      show "\<exists>e'\<in>set (edges g @ [?e]). source e' = target e \<and> relation e' = r' \<and> target e' = source e"
      proof (cases "e = ?e")
        case True
        with r' existing(1) have "r' = inverse_type" by simp
        with True ex exin show ?thesis by (intro bexI [of _ ex]) simp_all
      next
        case False
        with e have "e \<in> set (edges g)" by simp
        with c r' show ?thesis by fastforce
      qed
    qed
    with existing(4) show ?thesis by (simp add: g')
  next
    case (appended inverse_type)
    let ?e2 = "new_edge tgt inverse_type src src_file"
    have sym: "relation_inverses inverse_type = Some rel_type"
      using appended(1) by (rule relation_inverses_symmetric)
    have "(tgt, inverse_type, src) \<in> T" using appended(1) by (rule invT)
    have "edges_ok T (edges g @ [?e, ?e2])"
      unfolding edges_ok_def
    proof (intro conjI ballI allI impI)
      fix e assume "e \<in> set (edges g @ [?e, ?e2])"
      then show "edge_id e = edge_key (source e) (relation e) (target e)"
        and "(source e, relation e, target e) \<in> T"
        using a inT \<open>(tgt, inverse_type, src) \<in> T\<close> by auto
    next
      show "distinct (map edge_id (edges g @ [?e, ?e2]))"
        using b fresh appended(2) by auto
    next
      fix e r' assume e: "e \<in> set (edges g @ [?e, ?e2])"
        and r': "relation_inverses (relation e) = Some r'"
      consider "e = ?e" | "e = ?e2" | "e \<in> set (edges g)" using e by auto
      then show "\<exists>e'\<in>set (edges g @ [?e, ?e2]).
          source e' = target e \<and> relation e' = r' \<and> target e' = source e"
      proof cases
        case 1
        with r' appended(1) have "r' = inverse_type" by simp
        with 1 show ?thesis by (intro bexI [of _ ?e2]) simp_all
      next
        case 2
        with r' sym have "r' = rel_type" by simp
        with 2 show ?thesis by (intro bexI [of _ ?e]) simp_all
      next
        case 3
        with c r' show ?thesis by fastforce
      qed
    qed
    with appended(3) show ?thesis by (simp add: g')
  qed
qed

lemma op_triples_Cons:
  "op_triples ((src, rel_type, tgt, src_file) # ops) =
     (src, rel_type, tgt) #
     (case relation_inverses rel_type of None \<Rightarrow> [] | Some inverse_type \<Rightarrow> [(tgt, inverse_type, src)])
     @ op_triples ops"
  by (simp add: op_triples_def)

lemma add_relations_edges_ok:
  assumes "edges_ok T (edges g)" and "inj_on (\<lambda>(s, r, t). edge_key s r t) T"
    and "set (op_triples ops) \<subseteq> T"
  shows "edges_ok T (edges (fst (add_relations frames rank g ops)))"
  using assms
proof (induction ops arbitrary: g)
  case Nil
  then show ?case by simp
next
  case (Cons op ops)
  obtain src rel_type tgt src_file where op: "op = (src, rel_type, tgt, src_file)"
    by (cases op)
  from Cons.prems(3) have inT: "(src, rel_type, tgt) \<in> T"
    and invT: "\<And>r'. relation_inverses rel_type = Some r' \<Longrightarrow> (tgt, r', src) \<in> T"
    and rest: "set (op_triples ops) \<subseteq> T"
    by (auto simp: op op_triples_Cons)
  show ?case
  proof (cases "add_relation frames rank g src rel_type tgt src_file")
    case (Inl err)
    with Cons.prems(1) show ?thesis by (simp add: op)
  next
    case (Inr g')
    have "edges_ok T (edges g')"
      using Cons.prems(1,2) inT invT Inr by (rule add_relation_edges_ok)
    then have "edges_ok T (edges (fst (add_relations frames rank g' ops)))"
      using Cons.prems(2) rest by (rule Cons.IH)
    with Inr show ?thesis by (simp add: op)
  qed
qed

lemma collision_free_inj:
  "collision_free ops \<Longrightarrow> inj_on (\<lambda>(s, r, t). edge_key s r t) (set (op_triples ops))"
  using distinct_map [of "\<lambda>(s, r, t). edge_key s r t" "remdups (op_triples ops)"]
  by (simp add: collision_free_def)

lemma length_filter_unique:
  assumes "distinct (map f xs)" and "x \<in> set xs" and "P x"
    and "\<forall>y\<in>set xs. P y \<longrightarrow> f y = f x"
  shows "length (filter P xs) = 1"
proof -
  from assms(1) have d: "distinct xs" and inj: "inj_on f (set xs)"
    by (simp_all add: distinct_map)
  have "{y. P y} \<inter> set xs = {x}"
  proof (intro equalityI subsetI)
    fix y assume "y \<in> {y. P y} \<inter> set xs"
    then have y: "y \<in> set xs" and "P y" by simp_all
    with assms(4) have "f y = f x" by blast
    with inj y assms(2) have "y = x" by (simp add: inj_on_def)
    then show "y \<in> {x}" by simp
  next
    fix y assume "y \<in> {x}"
    with assms(2,3) show "y \<in> {y. P y} \<inter> set xs" by simp
  qed
  with distinct_length_filter [OF d, of P] show ?thesis by simp
qed

lemma edges_ok_count:
  assumes ok: "edges_ok T es" and e: "e \<in> set es"
    and src: "source e = s" and rel: "relation e = r" and tgt: "target e = t"
  shows "length (filter (\<lambda>e'. source e' = s \<and> relation e' = r \<and> target e' = t) es) = 1"
proof (rule length_filter_unique [where f = edge_id and x = e])
  show "distinct (map edge_id es)" using ok by (simp add: edges_ok_def)
  show "e \<in> set es" by (rule e)
  show "source e = s \<and> relation e = r \<and> target e = t" using src rel tgt by simp
  show "\<forall>y\<in>set es. source y = s \<and> relation y = r \<and> target y = t \<longrightarrow> edge_id y = edge_id e"
    using ok e src rel tgt by (auto simp: edges_ok_def)
qed

text \<open>
  Claim C2, amended. Start from a graph without edges and run any sequence of calls to
  \<^verbatim>\<open>_add_relation\<close>. In the graph the store then holds (after the last call, or when a
  call raised; so after every call, the sequence being arbitrary) every edge is there
  exactly once, and for every edge whose relation has an inverse in the relation table the
  inverse edge is there at most once. If moreover no two distinct (source, relation, target)
  triples, those of the calls and those of their inverse edges, have the same edge id, the
  inverse edge is there: exactly once.
\<close>

theorem add_relations_inverse_complete:
  assumes "edges g0 = []"
  shows "\<forall>e\<in>set (edges (fst (add_relations frames rank g0 ops))).
           edge_count (fst (add_relations frames rank g0 ops)) (source e) (relation e) (target e) = 1
         \<and> (\<forall>inverse_type. relation_inverses (relation e) = Some inverse_type \<longrightarrow>
              edge_count (fst (add_relations frames rank g0 ops)) (target e) inverse_type (source e)
                \<le> 1
            \<and> (collision_free ops \<longrightarrow>
                 edge_count (fst (add_relations frames rank g0 ops)) (target e) inverse_type
                   (source e) = 1))"
proof
  let ?G = "fst (add_relations frames rank g0 ops)"
  let ?T = "set (op_triples ops)"
  fix e assume e: "e \<in> set (edges ?G)"
  have "edge_ids_ok (edges g0)" by (simp add: assms edge_ids_ok_def)
  then have ids: "edge_ids_ok (edges ?G)" by (rule add_relations_edge_ids_ok)
  have "edge_count ?G (source e) (relation e) (target e) = 1"
    unfolding edge_count_def using ids e by (rule edge_ids_ok_count)
  moreover have "edge_count ?G (target e) inverse_type (source e) \<le> 1" for inverse_type
    unfolding edge_count_def using ids by (rule edge_ids_ok_count_le)
  moreover have "edge_count ?G (target e) inverse_type (source e) = 1"
    if inv: "relation_inverses (relation e) = Some inverse_type" and cf: "collision_free ops"
    for inverse_type
  proof -
    have "edges_ok ?T (edges g0)" by (simp add: assms edges_ok_def)
    then have ok: "edges_ok ?T (edges ?G)"
      using collision_free_inj [OF cf] by (rule add_relations_edges_ok) simp
    from ok e inv obtain e' where "e' \<in> set (edges ?G)" "source e' = target e"
      "relation e' = inverse_type" "target e' = source e"
      unfolding edges_ok_def by blast
    with ok show ?thesis unfolding edge_count_def by (intro edges_ok_count)
  qed
  ultimately show "edge_count ?G (source e) (relation e) (target e) = 1
         \<and> (\<forall>inverse_type. relation_inverses (relation e) = Some inverse_type \<longrightarrow>
              edge_count ?G (target e) inverse_type (source e) \<le> 1
            \<and> (collision_free ops \<longrightarrow>
                 edge_count ?G (target e) inverse_type (source e) = 1))"
    by blast
qed

subsection \<open>Examples\<close>

text \<open>The definitions that evaluate a call on a concrete graph.\<close>

lemmas eval_defs = add_relation_def add_inverse_relation_def Let_def edge_key_def
  empty_graph_def update_node_relations_def relation_inverses_def relation_table_def
  detect_circular_reference_def is_a_graph_def dfs_unfold dfs_neighbors.simps neighbors_def
  edge_order_def truthy_def index_of_def recursion_limit_def

text \<open>The same \<open>is_a\<close> edge inserted twice, from two documents.\<close>

lemma graph_after_dog:
  "add_relation recursion_limit edge_order empty_graph ''dog'' ''is_a'' ''animal'' ''a.md'' =
     Inr \<lparr>nodes = [], edges = [new_edge ''dog'' ''is_a'' ''animal'' ''a.md'',
        new_edge ''animal'' ''has_instance'' ''dog'' ''a.md'']\<rparr>"
  by (simp add: eval_defs new_edge_def)

lemma graph_after_dog_again:
  "add_relation recursion_limit edge_order
     \<lparr>nodes = [], edges = [new_edge ''dog'' ''is_a'' ''animal'' ''a.md'',
        new_edge ''animal'' ''has_instance'' ''dog'' ''a.md'']\<rparr>
     ''dog'' ''is_a'' ''animal'' ''b.md'' =
     Inr \<lparr>nodes = [], edges = [new_edge ''dog'' ''is_a'' ''animal'' ''a.md'',
        new_edge ''animal'' ''has_instance'' ''dog'' ''a.md'']\<rparr>"
  by (simp add: eval_defs new_edge_def)

lemma graph_ops_repeat:
  "add_relations recursion_limit edge_order empty_graph ops_repeat =
     (\<lparr>nodes = [], edges = [new_edge ''dog'' ''is_a'' ''animal'' ''a.md'',
        new_edge ''animal'' ''has_instance'' ''dog'' ''a.md'']\<rparr>, None)"
  by (simp add: ops_repeat_def graph_after_dog graph_after_dog_again)

text \<open>
  Two calls whose names contain the separator: the inverse of the second call's edge has the
  id of the first call's edge.
\<close>

lemma graph_after_a:
  "add_relation recursion_limit edge_order empty_graph ''a'' ''has_instance''
      ''b--has_instance--x'' ''a.md'' =
     Inr \<lparr>nodes = [], edges = [new_edge ''a'' ''has_instance'' ''b--has_instance--x'' ''a.md'',
        new_edge ''b--has_instance--x'' ''is_a'' ''a'' ''a.md'']\<rparr>"
  by (simp add: eval_defs new_edge_def)

lemma graph_after_x:
  "add_relation recursion_limit edge_order
     \<lparr>nodes = [], edges = [new_edge ''a'' ''has_instance'' ''b--has_instance--x'' ''a.md'',
        new_edge ''b--has_instance--x'' ''is_a'' ''a'' ''a.md'']\<rparr>
     ''x'' ''is_a'' ''a--has_instance--b'' ''x.md'' =
     Inr \<lparr>nodes = [], edges = [new_edge ''a'' ''has_instance'' ''b--has_instance--x'' ''a.md'',
        new_edge ''b--has_instance--x'' ''is_a'' ''a'' ''a.md'',
        new_edge ''x'' ''is_a'' ''a--has_instance--b'' ''x.md'']\<rparr>"
  by (simp add: eval_defs new_edge_def)

lemma graph_ops_collide:
  "add_relations recursion_limit edge_order empty_graph ops_collide =
     (\<lparr>nodes = [], edges = [new_edge ''a'' ''has_instance'' ''b--has_instance--x'' ''a.md'',
        new_edge ''b--has_instance--x'' ''is_a'' ''a'' ''a.md'',
        new_edge ''x'' ''is_a'' ''a--has_instance--b'' ''x.md'']\<rparr>, None)"
  by (simp add: ops_collide_def graph_after_a graph_after_x)

text \<open>
  After the repeated insertion the graph has the edge and its inverse, each once.
\<close>

theorem add_relations_inverse_complete_witness:
  "edges empty_graph = [] \<and> collision_free ops_repeat
   \<and> add_relations recursion_limit edge_order empty_graph ops_repeat =
       (\<lparr>nodes = [], edges = [new_edge ''dog'' ''is_a'' ''animal'' ''a.md'',
          new_edge ''animal'' ''has_instance'' ''dog'' ''a.md'']\<rparr>, None)
   \<and> edge_count (fst (add_relations recursion_limit edge_order empty_graph ops_repeat))
        ''dog'' ''is_a'' ''animal'' = 1
   \<and> edge_count (fst (add_relations recursion_limit edge_order empty_graph ops_repeat))
        ''animal'' ''has_instance'' ''dog'' = 1"
proof -
  have h1: "collision_free ops_repeat"
    by (simp add: collision_free_def op_triples_def ops_repeat_def relation_inverses_def
        relation_table_def edge_key_def)
  have h2: "edges empty_graph = []" by (simp add: empty_graph_def)
  have inv: "relation_inverses ''is_a'' = Some ''has_instance''"
    by (simp add: relation_inverses_def relation_table_def)
  from add_relations_inverse_complete [OF h2, of recursion_limit edge_order ops_repeat]
  show ?thesis using h1 h2 inv by (simp add: graph_ops_repeat)
qed

text \<open>
  The edge from \<open>x\<close> is in the graph, \<open>is_a\<close> has the inverse \<open>has_instance\<close>, and the
  graph has no \<open>has_instance\<close> edge back to \<open>x\<close>: the id of that edge,
  \<open>a--has_instance--b--has_instance--x\<close>, is the id of the edge the first call inserted.
\<close>

theorem inverse_missing_counterexample:
  "edge_count (fst (add_relations recursion_limit edge_order empty_graph ops_collide))
      ''x'' ''is_a'' ''a--has_instance--b'' = 1
   \<and> relation_inverses ''is_a'' = Some ''has_instance''
   \<and> edge_count (fst (add_relations recursion_limit edge_order empty_graph ops_collide))
        ''a--has_instance--b'' ''has_instance'' ''x'' = 0"
  by (simp add: edge_count_def graph_ops_collide relation_inverses_def relation_table_def)

text \<open>
  A graph with the node \<open>a\<close>. The call for \<open>part_of\<close> appends the edge and its inverse
  \<open>has_part\<close>, records the target in the node of \<open>a\<close> and creates no node for \<open>b\<close>;
  the call for \<open>tagged\<close>, a relation without inverse, appends one edge.
\<close>

lemma graph_with_a_part_of:
  "add_relation recursion_limit edge_order graph_with_a ''a'' ''part_of'' ''b'' ''a.md'' =
     Inr \<lparr>nodes = [(''a'', \<lparr>node_id = ''a'', classification_path = Some ''a'', sources = [''a.md''],
                           relations = [''part_of'' \<mapsto> [''b'']]\<rparr>)],
      edges = [new_edge ''a'' ''part_of'' ''b'' ''a.md'', new_edge ''b'' ''has_part'' ''a'' ''a.md'']\<rparr>"
  by (simp add: graph_with_a_def eval_defs new_edge_def)

lemma graph_with_a_tagged:
  "add_relation recursion_limit edge_order graph_with_a ''a'' ''tagged'' ''b'' ''a.md'' =
     Inr \<lparr>nodes = [(''a'', \<lparr>node_id = ''a'', classification_path = Some ''a'', sources = [''a.md''],
                           relations = [''tagged'' \<mapsto> [''b'']]\<rparr>)],
      edges = [new_edge ''a'' ''tagged'' ''b'' ''a.md'']\<rparr>"
  by (simp add: graph_with_a_def eval_defs new_edge_def)

theorem add_relation_source_node_witness:
  "''part_of'' \<noteq> ''is_a'' \<and> ''tagged'' \<noteq> ''is_a''
   \<and> find (\<lambda>e'. edge_id e' = edge_key ''a'' ''part_of'' ''b'') (edges graph_with_a) = None
   \<and> (\<exists>g'. add_relation recursion_limit edge_order graph_with_a ''a'' ''part_of'' ''b'' ''a.md''
              = Inr g'
          \<and> edges g' = [new_edge ''a'' ''part_of'' ''b'' ''a.md'',
                        new_edge ''b'' ''has_part'' ''a'' ''a.md'']
          \<and> map fst (nodes g') = [''a'']
          \<and> (\<exists>nd'. map_of (nodes g') ''a'' = Some nd' \<and> relations nd' ''part_of'' = Some [''b'']))
   \<and> find (\<lambda>e'. edge_id e' = edge_key ''a'' ''tagged'' ''b'') (edges graph_with_a) = None
   \<and> (\<exists>g'. add_relation recursion_limit edge_order graph_with_a ''a'' ''tagged'' ''b'' ''a.md''
              = Inr g'
          \<and> edges g' = [new_edge ''a'' ''tagged'' ''b'' ''a.md''])"
proof -
  have h1: "''part_of'' = ''is_a'' \<longrightarrow>
      (\<exists>cycle. detect_circular_reference recursion_limit edge_order graph_with_a ''a'' ''b'' ''is_a''
                 = Inr cycle \<and> \<not> truthy cycle)"
    and h1': "''tagged'' = ''is_a'' \<longrightarrow>
      (\<exists>cycle. detect_circular_reference recursion_limit edge_order graph_with_a ''a'' ''b'' ''is_a''
                 = Inr cycle \<and> \<not> truthy cycle)"
    by simp_all
  have h2: "find (\<lambda>e'. edge_id e' = edge_key ''a'' ''part_of'' ''b'') (edges graph_with_a) = None"
    and h2': "find (\<lambda>e'. edge_id e' = edge_key ''a'' ''tagged'' ''b'') (edges graph_with_a) = None"
    by (simp_all add: graph_with_a_def)
  have nd: "map_of (nodes graph_with_a) ''a''
      = Some \<lparr>node_id = ''a'', classification_path = Some ''a'', sources = [''a.md''],
               relations = Map.empty\<rparr>"
    and keys: "map fst (nodes graph_with_a) = [''a'']" and es: "edges graph_with_a = []"
    by (simp_all add: graph_with_a_def)
  have inv: "relation_inverses ''part_of'' = Some ''has_part''"
    "relation_inverses ''tagged'' = None"
    by (simp_all add: relation_inverses_def relation_table_def)
  from add_relation_source_node [OF h1 h2, of "''a.md''"] nd keys es inv
  have "\<exists>g'. add_relation recursion_limit edge_order graph_with_a ''a'' ''part_of'' ''b'' ''a.md''
              = Inr g'
          \<and> edges g' = [new_edge ''a'' ''part_of'' ''b'' ''a.md'',
                        new_edge ''b'' ''has_part'' ''a'' ''a.md'']
          \<and> map fst (nodes g') = [''a'']
          \<and> (\<exists>nd'. map_of (nodes g') ''a'' = Some nd' \<and> relations nd' ''part_of'' = Some [''b''])"
    by (simp add: appended_targets_def edge_key_def)
  moreover from add_relation_source_node [OF h1' h2', of "''a.md''"] es inv
  have "\<exists>g'. add_relation recursion_limit edge_order graph_with_a ''a'' ''tagged'' ''b'' ''a.md''
              = Inr g'
          \<and> edges g' = [new_edge ''a'' ''tagged'' ''b'' ''a.md'']"
    by auto
  ultimately show ?thesis using h2 h2' by simp
qed

text \<open>
  On the empty graph the same call appends the edge and its inverse, and the node
  dictionary stays empty: the source node is not created.
\<close>

theorem source_node_not_created_counterexample:
  "map_of (nodes empty_graph) ''a'' = None
   \<and> add_relation recursion_limit edge_order empty_graph ''a'' ''part_of'' ''b'' ''a.md''
       = Inr \<lparr>nodes = [],
              edges = [new_edge ''a'' ''part_of'' ''b'' ''a.md'',
                       new_edge ''b'' ''has_part'' ''a'' ''a.md'']\<rparr>"
  by (simp add: eval_defs new_edge_def)

subsection \<open>Inverse insertion and cycles\<close>

lemmas eval_inverse_defs = add_inverse_relation_def Let_def edge_key_def
  empty_graph_def update_node_relations_def relation_inverses_def relation_table_def

lemma graph_after_animal:
  "add_relation frames rank empty_graph ''animal'' ''has_instance'' ''dog'' ''animal.md'' =
     Inr \<lparr>nodes = [], edges = [new_edge ''animal'' ''has_instance'' ''dog'' ''animal.md'',
        new_edge ''dog'' ''is_a'' ''animal'' ''animal.md'']\<rparr>"
  by (simp add: add_relation_not_is_a eval_inverse_defs new_edge_def)

lemma graph_after_animal_dog:
  "add_relation frames rank
     \<lparr>nodes = [], edges = [new_edge ''animal'' ''has_instance'' ''dog'' ''animal.md'',
        new_edge ''dog'' ''is_a'' ''animal'' ''animal.md'']\<rparr>
     ''dog'' ''has_instance'' ''animal'' ''dog.md'' =
     Inr \<lparr>nodes = [], edges = [new_edge ''animal'' ''has_instance'' ''dog'' ''animal.md'',
        new_edge ''dog'' ''is_a'' ''animal'' ''animal.md'',
        new_edge ''dog'' ''has_instance'' ''animal'' ''dog.md'',
        new_edge ''animal'' ''is_a'' ''dog'' ''dog.md'']\<rparr>"
  by (simp add: add_relation_not_is_a eval_inverse_defs new_edge_def)

lemma graph_ops_instances:
  "add_relations frames rank empty_graph ops_instances = (mutual_instances, None)"
  unfolding ops_instances_def add_relations.simps graph_after_animal
  by (simp add: graph_after_animal_dog mutual_instances_def)

text \<open>
  Claim C1, at a failing input. \<open>animal has_instance dog\<close> followed by
  \<open>dog has_instance animal\<close>, on the empty graph: no call raises, each call appends, as the
  inverse of its edge, an \<open>is_a\<close> edge that no cycle check has seen, and the two \<open>is_a\<close>
  edges form a cycle. A single call \<open>thing has_instance thing\<close> inserts the \<open>is_a\<close> loop
  on \<open>thing\<close>. (The iteration order and the frames left are arbitrary: the detector never
  runs.)
\<close>

theorem inverse_insertion_makes_is_a_cycle:
  "snd (add_relations frames rank empty_graph ops_instances) = None
   \<and> is_a_edges (fst (add_relations frames rank empty_graph ops_instances))
       = {(''dog'', ''animal''), (''animal'', ''dog'')}
   \<and> (''dog'', ''dog'') \<in> (is_a_edges (fst (add_relations frames rank empty_graph ops_instances)))\<^sup>+
   \<and> snd (add_relations frames rank empty_graph [(''thing'', ''has_instance'', ''thing'', ''t.md'')])
       = None
   \<and> is_a_edges
        (fst (add_relations frames rank empty_graph
                [(''thing'', ''has_instance'', ''thing'', ''t.md'')]))
       = {(''thing'', ''thing'')}"
proof -
  have e: "is_a_edges (fst (add_relations frames rank empty_graph ops_instances))
     = {(''dog'', ''animal''), (''animal'', ''dog'')}"
    unfolding graph_ops_instances
    by (simp add: is_a_edges_def new_edge_def mutual_instances_def)
  have "(''dog'', ''animal'') \<in> {(''dog'', ''animal''), (''animal'', ''dog'')}"
    and "(''animal'', ''dog'') \<in> {(''dog'', ''animal''), (''animal'', ''dog'')}"
    by simp_all
  then have "(''dog'', ''dog'') \<in> {(''dog'', ''animal''), (''animal'', ''dog'')}\<^sup>+"
    by (rule trancl_into_trancl [OF r_into_trancl])
  moreover have "add_relations frames rank empty_graph
        [(''thing'', ''has_instance'', ''thing'', ''t.md'')]
       = (\<lparr>nodes = [], edges = [new_edge ''thing'' ''has_instance'' ''thing'' ''t.md'',
                                   new_edge ''thing'' ''is_a'' ''thing'' ''t.md'']\<rparr>, None)"
    by (simp add: add_relation_not_is_a eval_inverse_defs new_edge_def)
  then have "snd (add_relations frames rank empty_graph
        [(''thing'', ''has_instance'', ''thing'', ''t.md'')]) = None"
    and "is_a_edges (fst (add_relations frames rank empty_graph
                [(''thing'', ''has_instance'', ''thing'', ''t.md'')]))
       = {(''thing'', ''thing'')}"
    by (simp_all add: is_a_edges_def new_edge_def)
  ultimately show ?thesis using e by (simp add: graph_ops_instances)
qed

section \<open>Properties of the search engine\<close>

subsection \<open>The inverted index\<close>

text \<open>The definitions that evaluate \<open>lower\<close> on a concrete string.\<close>

lemmas eval_lower = lower_def lower_char_def char_of_def bit_0

lemma split_on_not_Nil [simp]: "split_on d s \<noteq> []"
  by (induction s) (auto split: list.splits)

lemma length_split_on: "length (split_on d s) = str_count d s + 1"
  by (induction s) (auto simp: str_count_def split: list.splits)

lemma index_lookup_append:
  "index_lookup (index_append idx k e) key =
     (if k = key then index_lookup idx key @ [e] else index_lookup idx key)"
  by (simp add: index_append_def index_lookup_def AList.update_conv')

lemma index_lookup_fold:
  "index_lookup (fold (\<lambda>(k, e) idx. index_append idx k e) kes idx) key =
     index_lookup idx key @ map snd (filter (\<lambda>p. fst p = key) kes)"
  by (induction kes arbitrary: idx) (auto simp: index_lookup_append)

lemma enumerate_0_map: "enumerate 0 xs = map (\<lambda>i. (i, xs ! i)) [0..<length xs]"
  by (rule nth_equalityI) (simp_all add: nth_enumerate_eq)

lemma upt_Suc_shift: "[1..<n + 1] = map Suc [0..<n]"
  by (simp add: map_Suc_upt)

lemma index_node_fold:
  "index_node idx item = fold (\<lambda>(k, e) idx. index_append idx k e) (node_entries item) idx"
proof -
  obtain n nd where item: "item = (n, nd)" by (cases item)
  let ?cp = "node_classification n nd"
  let ?parts = "split_on CHR ''/'' ?cp"
  have depth: "str_count CHR ''/'' ?cp = length ?parts - 1"
    by (simp add: length_split_on)
  have spec: "str_count CHR ''/'' ?cp + 1 = length ?parts"
    by (simp add: length_split_on)
  have step: "(\<lambda>idx'. index_append idx' (lower (?parts ! i))
                  \<lparr>entry_search_path = n, entry_classification_path = ?cp,
                   entry_depth = length ?parts - Suc 0, entry_specificity = Suc i,
                   entry_is_partial = Some (i < length ?parts - Suc 0), entry_node = nd\<rparr>)
          = (case prefix_entry n nd (Suc i) of (k, e) \<Rightarrow> \<lambda>idx. index_append idx k e)"
    if "i < length ?parts" for i
  proof -
    from that have "last (take (Suc i) ?parts) = ?parts ! i"
      by (simp add: take_Suc_conv_app_nth)
    moreover have "(i < length ?parts - Suc 0) = (Suc i < length ?parts)" by auto
    ultimately show ?thesis by (simp add: prefix_entry_def Let_def)
  qed
  have "fold (\<lambda>(i, part) idx'.
                index_append idx' (lower part)
                  \<lparr>entry_search_path = n, entry_classification_path = ?cp,
                   entry_depth = length ?parts - 1, entry_specificity = i + 1,
                   entry_is_partial = Some (i < length ?parts - 1), entry_node = nd\<rparr>)
          (enumerate 0 ?parts) idx1
        = fold (\<lambda>(k, e) idx. index_append idx k e)
            (map (prefix_entry n nd) [1..<length ?parts + 1]) idx1" for idx1
    unfolding enumerate_0_map upt_Suc_shift fold_map map_map
    by (rule fold_cong) (auto simp: step comp_def)
  then show ?thesis
    unfolding item index_node_def node_entries_def
    by (simp add: Let_def depth spec concept_entry_def)
qed

lemma build_search_index_fold:
  "build_search_index g =
     fold (\<lambda>(k, e) idx. index_append idx k e) (concat (map node_entries (nodes g))) []"
proof -
  have "fold (\<lambda>item idx. index_node idx item) items idx
          = fold (\<lambda>(k, e) idx. index_append idx k e) (concat (map node_entries items)) idx"
    for items idx
    by (induction items arbitrary: idx) (simp_all add: index_node_fold)
  then show ?thesis by (simp add: build_search_index_def)
qed

text \<open>The index of the graph whose only node has the classification path \<open>a/b/c\<close>.\<close>

lemma index_abc:
  "build_search_index \<lparr>nodes = [node_abc], edges = []\<rparr> =
     [(''c'', [snd (concept_entry ''c'' (snd node_abc)), snd (prefix_entry ''c'' (snd node_abc) 3)]),
      (''a'', [snd (prefix_entry ''c'' (snd node_abc) 1)]),
      (''b'', [snd (prefix_entry ''c'' (snd node_abc) 2)])]"
  by (simp add: build_search_index_def index_node_def node_abc_def node_classification_def
      Let_def str_count_def enumerate_eq_zip index_append_def index_lookup_def
      eval_lower concept_entry_def prefix_entry_def)

text \<open>
  That index has the keys \<open>c\<close>, \<open>a\<close>, \<open>b\<close> and four entries, not three: the key \<open>c\<close>
  holds two entries of specificity 3, the one made for the concept name (no partial marker)
  and the one made for the full path.
\<close>

theorem index_entries_counterexample:
  "map fst (build_search_index \<lparr>nodes = [node_abc], edges = []\<rparr>) = [''c'', ''a'', ''b'']
   \<and> length (concat (map snd (build_search_index \<lparr>nodes = [node_abc], edges = []\<rparr>))) = 4
   \<and> map entry_specificity (index_lookup (build_search_index \<lparr>nodes = [node_abc], edges = []\<rparr>) ''c'')
       = [3, 3]
   \<and> map entry_is_partial (index_lookup (build_search_index \<lparr>nodes = [node_abc], edges = []\<rparr>) ''c'')
       = [None, Some False]"
  unfolding index_abc
  by (simp add: index_lookup_def concept_entry_def prefix_entry_def Let_def node_abc_def
      node_classification_def)

text \<open>The index of the graph whose only node has the path \<open>Place/Ecole\<close> with E acute.\<close>

lemma index_school:
  "build_search_index \<lparr>nodes = [node_school], edges = []\<rparr> =
     [(CHR 0xE9 # ''cole'',
         [snd (concept_entry ''school'' (snd node_school)),
          snd (prefix_entry ''school'' (snd node_school) 2)]),
      (''place'', [snd (prefix_entry ''school'' (snd node_school) 1)])]"
  by (simp add: build_search_index_def index_node_def node_school_def node_classification_def
      Let_def str_count_def enumerate_eq_zip index_append_def index_lookup_def
      eval_lower concept_entry_def prefix_entry_def)

text \<open>
  Claim C7, amended. The entries the index holds under a key are, node by node in the order
  of the node dictionary, the entries of the node with that key: for every node one entry
  for its concept name (keyed by the lowercased last segment, specificity the segment count
  of the path, no partial marker) and then one entry per prefix of its classification path
  (lengths 1 through full), keyed by the lowercased segment at the prefix boundary, with
  specificity the prefix's segment count and the partial marker true exactly when the prefix
  is strictly shorter than the path. A node with the classification path \<open>a/b/c\<close> yields
  four entries: \<open>c\<close> (concept name, specificity 3) and \<open>a\<close>, \<open>b\<close>, \<open>c\<close> with the
  specificities 1, 2, 3. The keys are lowercased: the node with the path \<open>Place/Ecole\<close>
  (E acute) is indexed under \<open>place\<close> and under \<open>ecole\<close> with a small e acute, and the
  index has nothing under \<open>Place\<close> and nothing under the segment as it is written.
\<close>

theorem build_search_index_entries:
  "index_lookup (build_search_index g) key =
     map snd (filter (\<lambda>p. fst p = key) (concat (map node_entries (nodes g))))
   \<and> node_entries node_abc =
       [(''c'', \<lparr>entry_search_path = ''c'', entry_classification_path = ''a/b/c'', entry_depth = 2,
                 entry_specificity = 3, entry_is_partial = None, entry_node = snd node_abc\<rparr>),
        (''a'', \<lparr>entry_search_path = ''c'', entry_classification_path = ''a/b/c'', entry_depth = 2,
                 entry_specificity = 1, entry_is_partial = Some True, entry_node = snd node_abc\<rparr>),
        (''b'', \<lparr>entry_search_path = ''c'', entry_classification_path = ''a/b/c'', entry_depth = 2,
                 entry_specificity = 2, entry_is_partial = Some True, entry_node = snd node_abc\<rparr>),
        (''c'', \<lparr>entry_search_path = ''c'', entry_classification_path = ''a/b/c'', entry_depth = 2,
                 entry_specificity = 3, entry_is_partial = Some False, entry_node = snd node_abc\<rparr>)]
   \<and> map fst (node_entries node_school) = [CHR 0xE9 # ''cole'', ''place'', CHR 0xE9 # ''cole'']
   \<and> map fst (build_search_index \<lparr>nodes = [node_school], edges = []\<rparr>)
       = [CHR 0xE9 # ''cole'', ''place'']
   \<and> map entry_specificity
        (index_lookup (build_search_index \<lparr>nodes = [node_school], edges = []\<rparr>) ''place'') = [1]
   \<and> map entry_specificity
        (index_lookup (build_search_index \<lparr>nodes = [node_school], edges = []\<rparr>)
           (CHR 0xE9 # ''cole'')) = [2, 2]
   \<and> index_lookup (build_search_index \<lparr>nodes = [node_school], edges = []\<rparr>) ''Place'' = []
   \<and> index_lookup (build_search_index \<lparr>nodes = [node_school], edges = []\<rparr>)
        (CHR 0xC9 # ''cole'') = []"
proof (intro conjI)
  show "index_lookup (build_search_index g) key =
     map snd (filter (\<lambda>p. fst p = key) (concat (map node_entries (nodes g))))"
    unfolding build_search_index_fold index_lookup_fold by (simp add: index_lookup_def)
  have "[1..<4] = [1, 2, 3 :: nat]" by (simp add: upt_rec)
  then show "node_entries node_abc =
       [(''c'', \<lparr>entry_search_path = ''c'', entry_classification_path = ''a/b/c'', entry_depth = 2,
                 entry_specificity = 3, entry_is_partial = None, entry_node = snd node_abc\<rparr>),
        (''a'', \<lparr>entry_search_path = ''c'', entry_classification_path = ''a/b/c'', entry_depth = 2,
                 entry_specificity = 1, entry_is_partial = Some True, entry_node = snd node_abc\<rparr>),
        (''b'', \<lparr>entry_search_path = ''c'', entry_classification_path = ''a/b/c'', entry_depth = 2,
                 entry_specificity = 2, entry_is_partial = Some True, entry_node = snd node_abc\<rparr>),
        (''c'', \<lparr>entry_search_path = ''c'', entry_classification_path = ''a/b/c'', entry_depth = 2,
                 entry_specificity = 3, entry_is_partial = Some False, entry_node = snd node_abc\<rparr>)]"
    by (simp add: node_entries_def node_abc_def node_classification_def concept_entry_def
        prefix_entry_def Let_def eval_lower)
  have "[1..<3] = [1, 2 :: nat]" by (simp add: upt_rec)
  then show "map fst (node_entries node_school) = [CHR 0xE9 # ''cole'', ''place'', CHR 0xE9 # ''cole'']"
    by (simp add: node_entries_def node_school_def node_classification_def concept_entry_def
        prefix_entry_def Let_def eval_lower)
  show "map fst (build_search_index \<lparr>nodes = [node_school], edges = []\<rparr>)
       = [CHR 0xE9 # ''cole'', ''place'']"
    by (simp add: index_school)
  show "map entry_specificity
        (index_lookup (build_search_index \<lparr>nodes = [node_school], edges = []\<rparr>) ''place'') = [1]"
    by (simp add: index_school index_lookup_def prefix_entry_def Let_def)
  show "map entry_specificity
        (index_lookup (build_search_index \<lparr>nodes = [node_school], edges = []\<rparr>)
           (CHR 0xE9 # ''cole'')) = [2, 2]"
    unfolding index_school
    by (simp add: index_lookup_def prefix_entry_def concept_entry_def Let_def
        node_school_def node_classification_def)
  show "index_lookup (build_search_index \<lparr>nodes = [node_school], edges = []\<rparr>) ''Place'' = []"
    by (simp add: index_school index_lookup_def)
  show "index_lookup (build_search_index \<lparr>nodes = [node_school], edges = []\<rparr>)
        (CHR 0xC9 # ''cole'') = []"
    by (simp add: index_school index_lookup_def)
qed

subsection \<open>The query\<close>

lemma starts_with_refl: "starts_with s s"
  by (simp add: starts_with_def)

lemma str_in_refl: "str_in s s"
  by (cases s) (simp_all add: starts_with_refl)

lemma split_on_no_sep: "d \<notin> set p \<Longrightarrow> split_on d p = [p]"
  by (induction p) auto

lemma split_on_append_sep: "d \<notin> set p \<Longrightarrow> split_on d (p @ d # rest) = p # split_on d rest"
  by (induction p) (auto split: list.splits)

lemma split_on_sep_free: "p \<in> set (split_on d s) \<Longrightarrow> d \<notin> set p"
proof (induction s arbitrary: p)
  case Nil
  then show ?case by simp
next
  case (Cons c s)
  show ?case
  proof (cases "c = d")
    case True
    with Cons show ?thesis by auto
  next
    case False
    obtain q qs where q: "split_on d s = q # qs"
      by (cases "split_on d s") simp_all
    with False Cons.prems have "p = c # q \<or> p \<in> set qs" by simp
    then show ?thesis
    proof
      assume "p = c # q"
      moreover have "d \<notin> set q" using q Cons.IH [of q] by simp
      ultimately show ?thesis using False by simp
    next
      assume "p \<in> set qs"
      with q Cons.IH [of p] show ?thesis by simp
    qed
  qed
qed

lemma str_count_append: "str_count d (xs @ ys) = str_count d xs + str_count d ys"
  by (simp add: str_count_def)

lemma str_count_sep_free: "d \<notin> set p \<Longrightarrow> str_count d p = 0"
  by (induction p) (auto simp: str_count_def)

lemma str_count_join:
  "ps \<noteq> [] \<Longrightarrow> \<forall>p\<in>set ps. d \<notin> set p \<Longrightarrow> str_count d (join_with d ps) = length ps - 1"
proof (induction d ps rule: join_with.induct)
  case (1 d)
  then show ?case by simp
next
  case (2 d p)
  then show ?case by (simp add: str_count_sep_free)
next
  case (3 d p q ps)
  then have "str_count d (join_with d (q # ps)) = length (q # ps) - 1" by simp
  moreover have "str_count d (p @ d # join_with d (q # ps))
      = str_count d p + (1 + str_count d (join_with d (q # ps)))"
    by (simp add: str_count_def)
  ultimately show ?case using 3 by (simp add: str_count_sep_free)
qed

lemma first_match_Some_iff:
  "first_match q ps = Some i \<longleftrightarrow>
     i < length ps \<and> segment_matches q (ps ! i) \<and> (\<forall>j<i. \<not> segment_matches q (ps ! j))"
proof (induction ps arbitrary: i)
  case Nil
  then show ?case by simp
next
  case (Cons p ps)
  show ?case
  proof (cases "segment_matches q p")
    case True
    then show ?thesis by (cases i) auto
  next
    case False
    show ?thesis
    proof (cases i)
      case 0
      with False show ?thesis by simp
    next
      case (Suc k)
      have "(\<forall>j<Suc k. \<not> segment_matches q ((p # ps) ! j)) \<longleftrightarrow>
              (\<forall>j<k. \<not> segment_matches q (ps ! j))"
        using False by (auto simp: less_Suc_eq_0_disj)
      with False Suc Cons.IH [of k] show ?thesis by auto
    qed
  qed
qed

lemma match_index_less:
  "match_index q n (split_on d s) = Some mi \<Longrightarrow> mi < length (split_on d s)"
  by (auto simp: match_index_def first_match_Some_iff length_split_on split: option.splits)

lemma search_node_eq:
  "search_node q (n, nd) (results, seen) =
     (case match_index q n (split_on CHR ''/'' (node_classification n nd)) of
        None \<Rightarrow> (results, seen)
      | Some mi \<Rightarrow>
          if result_classification_path (node_result n nd mi) \<in> seen then (results, seen)
          else (results @ [node_result n nd mi],
                insert (result_classification_path (node_result n nd mi)) seen))"
  by (simp add: search_node_def node_result_def Let_def split: option.splits)

lemma fold_search_node:
  assumes "fold (search_node q) items (results, seen) = (results', seen')"
    and "seen = result_classification_path ` set results"
  shows "seen' = result_classification_path ` set results'
       \<and> (\<forall>r\<in>set results'. r \<in> set results \<or>
           (\<exists>(n, nd)\<in>set items. \<exists>mi.
              match_index q n (split_on CHR ''/'' (node_classification n nd)) = Some mi
              \<and> r = node_result n nd mi))
       \<and> (\<forall>(n, nd)\<in>set items. \<forall>mi.
           match_index q n (split_on CHR ''/'' (node_classification n nd)) = Some mi \<longrightarrow>
           result_classification_path (node_result n nd mi) \<in> seen')
       \<and> seen \<subseteq> seen'"
  using assms
proof (induction items arbitrary: results seen)
  case Nil
  then show ?case by auto
next
  case (Cons item items)
  obtain n nd where item: "item = (n, nd)" by (cases item)
  obtain results1 seen1 where s1: "search_node q (n, nd) (results, seen) = (results1, seen1)"
    by (cases "search_node q (n, nd) (results, seen)")
  from Cons.prems(1) have f: "fold (search_node q) items (results1, seen1) = (results', seen')"
    by (simp add: item s1)
  have inv1: "seen1 = result_classification_path ` set results1"
    using s1 Cons.prems(2) by (auto simp: search_node_eq split: option.splits if_splits)
  have new: "\<forall>r\<in>set results1. r \<in> set results \<or>
      (\<exists>mi. match_index q n (split_on CHR ''/'' (node_classification n nd)) = Some mi
         \<and> r = node_result n nd mi)"
    using s1 by (auto simp: search_node_eq split: option.splits if_splits)
  have here: "\<forall>mi. match_index q n (split_on CHR ''/'' (node_classification n nd)) = Some mi \<longrightarrow>
      result_classification_path (node_result n nd mi) \<in> seen1"
    using s1 by (auto simp: search_node_eq split: option.splits if_splits)
  have sub: "seen \<subseteq> seen1"
    using s1 by (auto simp: search_node_eq split: option.splits if_splits)
  from Cons.IH [OF f inv1]
  have ih1: "seen' = result_classification_path ` set results'"
    and ih2: "\<forall>r\<in>set results'. r \<in> set results1 \<or>
           (\<exists>(n, nd)\<in>set items. \<exists>mi.
              match_index q n (split_on CHR ''/'' (node_classification n nd)) = Some mi
              \<and> r = node_result n nd mi)"
    and ih3: "\<forall>(n, nd)\<in>set items. \<forall>mi.
           match_index q n (split_on CHR ''/'' (node_classification n nd)) = Some mi \<longrightarrow>
           result_classification_path (node_result n nd mi) \<in> seen'"
    and ih4: "seen1 \<subseteq> seen'"
    by blast+
  have c2: "\<forall>r\<in>set results'. r \<in> set results \<or>
           (\<exists>(n, nd)\<in>set (item # items). \<exists>mi.
              match_index q n (split_on CHR ''/'' (node_classification n nd)) = Some mi
              \<and> r = node_result n nd mi)"
  proof
    fix r assume "r \<in> set results'"
    with ih2 consider "r \<in> set results1"
      | "\<exists>(n, nd)\<in>set items. \<exists>mi.
              match_index q n (split_on CHR ''/'' (node_classification n nd)) = Some mi
              \<and> r = node_result n nd mi"
      by blast
    then show "r \<in> set results \<or>
           (\<exists>(n, nd)\<in>set (item # items). \<exists>mi.
              match_index q n (split_on CHR ''/'' (node_classification n nd)) = Some mi
              \<and> r = node_result n nd mi)"
    proof cases
      case 1
      with new show ?thesis unfolding item by auto
    next
      case 2
      then show ?thesis by auto
    qed
  qed
  have c3: "\<forall>(n, nd)\<in>set (item # items). \<forall>mi.
           match_index q n (split_on CHR ''/'' (node_classification n nd)) = Some mi \<longrightarrow>
           result_classification_path (node_result n nd mi) \<in> seen'"
    using ih3 ih4 here unfolding item by auto
  from ih1 c2 c3 sub ih4 show ?case by blast
qed

lemma strip_node_result: "strip_hierarchy (node_result n nd mi) = node_result n nd mi"
  by (simp add: strip_hierarchy_def node_result_def Let_def)

lemma raw_result_sound:
  assumes "r \<in> set (raw_results g query)"
  shows "\<exists>(n, nd)\<in>set (nodes g). \<exists>mi.
           match_index (lower query) n (split_on CHR ''/'' (node_classification n nd)) = Some mi
           \<and> r = node_result n nd mi"
proof -
  obtain results' seen' where f:
    "fold (search_node (lower query)) (nodes g) ([], {}) = (results', seen')"
    by (cases "fold (search_node (lower query)) (nodes g) ([], {})")
  from fold_search_node [OF f] assms show ?thesis
    by (simp add: raw_results_def f)
qed

lemma node_result_segments:
  assumes "match_index q n (split_on CHR ''/'' (node_classification n nd)) = Some mi"
  shows "str_count CHR ''/'' (result_classification_path (node_result n nd mi)) = mi"
proof -
  let ?parts = "split_on CHR ''/'' (node_classification n nd)"
  from assms have less: "mi < length ?parts" by (rule match_index_less)
  have "str_count CHR ''/'' (join_with CHR ''/'' (take (mi + 1) ?parts))
          = length (take (mi + 1) ?parts) - 1"
  proof (rule str_count_join)
    show "take (mi + 1) ?parts \<noteq> []" using less by auto
    show "\<forall>p\<in>set (take (mi + 1) ?parts). CHR ''/'' \<notin> set p"
      by (auto dest: in_set_takeD split_on_sep_free)
  qed
  with less show ?thesis by (simp add: node_result_def Let_def)
qed

lemma raw_result_complete:
  assumes "(n, nd) \<in> set (nodes g)"
    and "match_index (lower query) n (split_on CHR ''/'' (node_classification n nd)) = Some mi"
  shows "\<exists>r\<in>set (raw_results g query).
           result_classification_path r
             = join_with CHR ''/'' (take (mi + 1) (split_on CHR ''/'' (node_classification n nd)))
           \<and> result_specificity r = mi + 1"
proof -
  obtain results' seen' where f:
    "fold (search_node (lower query)) (nodes g) ([], {}) = (results', seen')"
    by (cases "fold (search_node (lower query)) (nodes g) ([], {})")
  have raw: "raw_results g query = results'" by (simp add: raw_results_def f)
  from fold_search_node [OF f] assms
  have "result_classification_path (node_result n nd mi) \<in> result_classification_path ` set results'"
    by fastforce
  then obtain r where r: "r \<in> set results'"
    and cp: "result_classification_path r = result_classification_path (node_result n nd mi)"
    by auto
  from r raw_result_sound [of r g query] raw
  obtain n' nd' mi' where m': "match_index (lower query) n' (split_on CHR ''/'' (node_classification n' nd')) = Some mi'"
    and r': "r = node_result n' nd' mi'"
    by auto
  from node_result_segments [OF m'] node_result_segments [OF assms(2)] cp r'
  have "mi' = mi" by simp
  then have "result_specificity r = mi + 1" by (simp add: r' node_result_def Let_def)
  moreover from cp have "result_classification_path r
             = join_with CHR ''/'' (take (mi + 1) (split_on CHR ''/'' (node_classification n nd)))"
    by (simp add: node_result_def Let_def)
  ultimately show ?thesis using r raw by blast
qed

lemma attach_hierarchy_strip:
  "map strip_hierarchy (fst (attach_hierarchy g cache rs)) = map strip_hierarchy rs"
proof (induction rs arbitrary: cache)
  case Nil
  show ?case by simp
next
  case (Cons r rs)
  obtain hierarchy cache1 where h:
    "get_parent_hierarchy g cache (result_classification_path r) = (hierarchy, cache1)"
    by (cases "get_parent_hierarchy g cache (result_classification_path r)")
  obtain rs' cache2 where a: "attach_hierarchy g cache1 rs = (rs', cache2)"
    by (cases "attach_hierarchy g cache1 rs")
  from Cons.IH [of cache1] a have "map strip_hierarchy rs' = map strip_hierarchy rs" by simp
  moreover have "strip_hierarchy (r\<lparr>result_hierarchy := Some hierarchy\<rparr>) = strip_hierarchy r"
    by (simp add: strip_hierarchy_def)
  ultimately show ?case by (simp add: h a)
qed

lemma search_strip:
  "map strip_hierarchy (fst (search g cache query include_hierarchy)) =
     sort_key (\<lambda>r. (- int (result_specificity r), result_classification_path r))
       (raw_results g query)"
proof -
  let ?sorted = "sort_key (\<lambda>r. (- int (result_specificity r), result_classification_path r))
       (raw_results g query)"
  have "\<forall>r\<in>set ?sorted. strip_hierarchy r = r"
  proof
    fix r assume "r \<in> set ?sorted"
    then have "r \<in> set (raw_results g query)" by simp
    from raw_result_sound [OF this] obtain n nd mi where "r = node_result n nd mi" by auto
    then show "strip_hierarchy r = r" by (simp add: strip_node_result)
  qed
  then have "map strip_hierarchy ?sorted = ?sorted"
    by (intro map_idI) simp
  then show ?thesis
    by (simp add: search_def Let_def raw_results_def [symmetric] attach_hierarchy_strip)
qed

lemma search_results_raw:
  "strip_hierarchy ` set (fst (search g cache query include_hierarchy)) = set (raw_results g query)"
proof -
  have "set (map strip_hierarchy (fst (search g cache query include_hierarchy)))
      = set (raw_results g query)"
    unfolding search_strip by simp
  then show ?thesis by simp
qed

lemma strip_fields [simp]:
  "result_classification_path (strip_hierarchy r) = result_classification_path r"
  "result_specificity (strip_hierarchy r) = result_specificity r"
  "result_search_path (strip_hierarchy r) = result_search_path r"
  "result_full_classification_path (strip_hierarchy r) = result_full_classification_path r"
  by (simp_all add: strip_hierarchy_def)

lemma search_finds:
  assumes "(n, nd) \<in> set (nodes g)"
    and "first_match (lower query) (split_on CHR ''/'' (node_classification n nd)) = Some i"
  shows "\<exists>r\<in>set (fst (search g cache query include_hierarchy)).
           result_classification_path r
             = join_with CHR ''/'' (take (Suc i) (split_on CHR ''/'' (node_classification n nd)))
           \<and> result_specificity r = Suc i"
proof -
  from assms(2)
  have "match_index (lower query) n (split_on CHR ''/'' (node_classification n nd)) = Some i"
    by (simp add: match_index_def)
  from raw_result_complete [OF assms(1) this] obtain r where
    "r \<in> set (raw_results g query)"
    "result_classification_path r
       = join_with CHR ''/'' (take (Suc i) (split_on CHR ''/'' (node_classification n nd)))"
    "result_specificity r = Suc i"
    by auto
  moreover from this(1) obtain r' where "r' \<in> set (fst (search g cache query include_hierarchy))"
    "r = strip_hierarchy r'"
    unfolding search_results_raw [of g cache query include_hierarchy, symmetric] by auto
  ultimately show ?thesis by auto
qed

lemma search_result_at_first_match:
  assumes "r \<in> set (fst (search g cache query include_hierarchy))"
  shows "\<exists>(n, nd)\<in>set (nodes g).
           result_search_path r = n
         \<and> result_full_classification_path r = node_classification n nd
         \<and> (\<forall>i. first_match (lower query) (split_on CHR ''/'' (node_classification n nd)) = Some i
              \<longrightarrow> result_classification_path r
                    = join_with CHR ''/'' (take (Suc i) (split_on CHR ''/'' (node_classification n nd)))
                  \<and> result_specificity r = Suc i)"
proof -
  from assms have "strip_hierarchy r \<in> set (raw_results g query)"
    unfolding search_results_raw [of g cache query include_hierarchy, symmetric] by simp
  from raw_result_sound [OF this] obtain n nd mi where
    node: "(n, nd) \<in> set (nodes g)"
    and m: "match_index (lower query) n (split_on CHR ''/'' (node_classification n nd)) = Some mi"
    and r: "strip_hierarchy r = node_result n nd mi"
    by auto
  have "result_search_path (strip_hierarchy r) = n"
    and "result_full_classification_path (strip_hierarchy r) = node_classification n nd"
    by (simp_all add: r node_result_def Let_def)
  moreover have "result_classification_path (strip_hierarchy r)
                    = join_with CHR ''/'' (take (Suc i) (split_on CHR ''/'' (node_classification n nd)))
                  \<and> result_specificity (strip_hierarchy r) = Suc i"
    if "first_match (lower query) (split_on CHR ''/'' (node_classification n nd)) = Some i" for i
  proof -
    from that m have "mi = i" by (simp add: match_index_def)
    then show ?thesis by (simp add: r node_result_def Let_def)
  qed
  ultimately show ?thesis using node by (intro bexI [of _ "(n, nd)"]) simp_all
qed

lemma split_on_three:
  assumes "d \<notin> set sa" "d \<notin> set sb" "d \<notin> set sc"
  shows "split_on d (sa @ d # sb @ d # sc) = [sa, sb, sc]"
  using assms by (simp add: split_on_append_sep split_on_no_sep)

text \<open>
  Claim C6. Let a node of the graph have a classification path of three segments \<open>sa\<close>,
  \<open>sb\<close>, \<open>sc\<close>, none of them (lowercased) contained in another. Then the search for
  \<open>sa\<close> returns a result with truncated path \<open>sa\<close> and specificity 1, the search for
  \<open>sb\<close> one with \<open>sa/sb\<close> and specificity 2, the search for \<open>sc\<close> one with
  \<open>sa/sb/sc\<close> and specificity 3 (with or without hierarchies attached). And every result
  of every search comes from a node of the graph, and if \<open>i\<close> is the first segment of that
  node's classification path that matches the query, the result's truncated path is the
  prefix ending at that segment and its specificity is the segment count of that prefix:
  no result is more specific than its match point. (Segments and query are compared
  lowercased, by \<open>lower\<close>; the proof uses nothing of \<open>lower\<close> but that it is a function.)
\<close>

theorem search_truncates_at_match:
  assumes "(n, nd) \<in> set (nodes g)"
    and "node_classification n nd = sa @ ''/'' @ sb @ ''/'' @ sc"
    and "CHR ''/'' \<notin> set sa" and "CHR ''/'' \<notin> set sb" and "CHR ''/'' \<notin> set sc"
    and "\<not> str_in (lower sa) (lower sb)" and "\<not> str_in (lower sb) (lower sa)"
    and "\<not> str_in (lower sa) (lower sc)" and "\<not> str_in (lower sc) (lower sa)"
    and "\<not> str_in (lower sb) (lower sc)" and "\<not> str_in (lower sc) (lower sb)"
  shows "(\<exists>r\<in>set (fst (search g cache sa include_hierarchy)).
            result_classification_path r = sa \<and> result_specificity r = 1)
       \<and> (\<exists>r\<in>set (fst (search g cache sb include_hierarchy)).
            result_classification_path r = sa @ ''/'' @ sb \<and> result_specificity r = 2)
       \<and> (\<exists>r\<in>set (fst (search g cache sc include_hierarchy)).
            result_classification_path r = sa @ ''/'' @ sb @ ''/'' @ sc
            \<and> result_specificity r = 3)
       \<and> (\<forall>query. \<forall>r\<in>set (fst (search g cache query include_hierarchy)).
            \<exists>(n', nd')\<in>set (nodes g).
               result_search_path r = n'
             \<and> result_full_classification_path r = node_classification n' nd'
             \<and> (\<forall>i<length (split_on CHR ''/'' (node_classification n' nd')).
                    segment_matches (lower query) (split_on CHR ''/'' (node_classification n' nd') ! i)
                  \<and> (\<forall>j<i. \<not> segment_matches (lower query)
                               (split_on CHR ''/'' (node_classification n' nd') ! j))
                  \<longrightarrow> result_classification_path r
                        = join_with CHR ''/''
                            (take (Suc i) (split_on CHR ''/'' (node_classification n' nd')))
                      \<and> result_specificity r = Suc i))"
proof (intro conjI allI ballI)
  have parts: "split_on CHR ''/'' (node_classification n nd) = [sa, sb, sc]"
    using assms(2-5) by (simp add: split_on_three)
  have "first_match (lower sa) (split_on CHR ''/'' (node_classification n nd)) = Some 0"
    by (simp add: parts segment_matches_def str_in_refl)
  from search_finds [OF assms(1) this, of cache include_hierarchy]
  show "\<exists>r\<in>set (fst (search g cache sa include_hierarchy)).
            result_classification_path r = sa \<and> result_specificity r = 1"
    by (simp add: parts)
  have "first_match (lower sb) (split_on CHR ''/'' (node_classification n nd)) = Some 1"
    using assms(6,7) by (simp add: parts segment_matches_def str_in_refl)
  from search_finds [OF assms(1) this, of cache include_hierarchy]
  show "\<exists>r\<in>set (fst (search g cache sb include_hierarchy)).
            result_classification_path r = sa @ ''/'' @ sb \<and> result_specificity r = 2"
    by (simp add: parts numeral_2_eq_2)
  have "first_match (lower sc) (split_on CHR ''/'' (node_classification n nd)) = Some 2"
    using assms(8-11) by (simp add: parts segment_matches_def str_in_refl numeral_2_eq_2)
  from search_finds [OF assms(1) this, of cache include_hierarchy]
  show "\<exists>r\<in>set (fst (search g cache sc include_hierarchy)).
            result_classification_path r = sa @ ''/'' @ sb @ ''/'' @ sc
            \<and> result_specificity r = 3"
    by (simp add: parts numeral_2_eq_2 numeral_3_eq_3)
next
  fix query r
  assume "r \<in> set (fst (search g cache query include_hierarchy))"
  from search_result_at_first_match [OF this] obtain n' nd' where
    node: "(n', nd') \<in> set (nodes g)"
    and sp: "result_search_path r = n'"
    and full: "result_full_classification_path r = node_classification n' nd'"
    and fm: "\<And>i. first_match (lower query) (split_on CHR ''/'' (node_classification n' nd')) = Some i
              \<Longrightarrow> result_classification_path r
                    = join_with CHR ''/'' (take (Suc i) (split_on CHR ''/'' (node_classification n' nd')))
                  \<and> result_specificity r = Suc i"
    by blast
  have "\<forall>i<length (split_on CHR ''/'' (node_classification n' nd')).
                    segment_matches (lower query) (split_on CHR ''/'' (node_classification n' nd') ! i)
                  \<and> (\<forall>j<i. \<not> segment_matches (lower query)
                               (split_on CHR ''/'' (node_classification n' nd') ! j))
                  \<longrightarrow> result_classification_path r
                        = join_with CHR ''/''
                            (take (Suc i) (split_on CHR ''/'' (node_classification n' nd')))
                      \<and> result_specificity r = Suc i"
  proof (intro allI impI)
    fix i
    assume "i < length (split_on CHR ''/'' (node_classification n' nd'))"
      and "segment_matches (lower query) (split_on CHR ''/'' (node_classification n' nd') ! i)
         \<and> (\<forall>j<i. \<not> segment_matches (lower query)
                               (split_on CHR ''/'' (node_classification n' nd') ! j))"
    then have "first_match (lower query) (split_on CHR ''/'' (node_classification n' nd')) = Some i"
      unfolding first_match_Some_iff by blast
    then show "result_classification_path r
                        = join_with CHR ''/''
                            (take (Suc i) (split_on CHR ''/'' (node_classification n' nd')))
                      \<and> result_specificity r = Suc i"
      by (rule fm)
  qed
  with node sp full
  show "\<exists>(n', nd')\<in>set (nodes g).
               result_search_path r = n'
             \<and> result_full_classification_path r = node_classification n' nd'
             \<and> (\<forall>i<length (split_on CHR ''/'' (node_classification n' nd')).
                    segment_matches (lower query) (split_on CHR ''/'' (node_classification n' nd') ! i)
                  \<and> (\<forall>j<i. \<not> segment_matches (lower query)
                               (split_on CHR ''/'' (node_classification n' nd') ! j))
                  \<longrightarrow> result_classification_path r
                        = join_with CHR ''/''
                            (take (Suc i) (split_on CHR ''/'' (node_classification n' nd')))
                      \<and> result_specificity r = Suc i)"
    by (intro bexI [of _ "(n', nd')"]) simp_all
qed

text \<open>The instance with the path \<open>a/b/c\<close>.\<close>

theorem search_truncates_at_match_witness:
  "node_abc \<in> set (nodes \<lparr>nodes = [node_abc], edges = []\<rparr>)
   \<and> node_classification (fst node_abc) (snd node_abc) = ''a'' @ ''/'' @ ''b'' @ ''/'' @ ''c''
   \<and> \<not> str_in (lower ''a'') (lower ''b'') \<and> \<not> str_in (lower ''b'') (lower ''c'')
   \<and> (\<exists>r\<in>set (fst (search \<lparr>nodes = [node_abc], edges = []\<rparr> Map.empty ''a'' False)).
         result_classification_path r = ''a'' \<and> result_specificity r = 1)
   \<and> (\<exists>r\<in>set (fst (search \<lparr>nodes = [node_abc], edges = []\<rparr> Map.empty ''b'' False)).
         result_classification_path r = ''a/b'' \<and> result_specificity r = 2)
   \<and> (\<exists>r\<in>set (fst (search \<lparr>nodes = [node_abc], edges = []\<rparr> Map.empty ''c'' False)).
         result_classification_path r = ''a/b/c'' \<and> result_specificity r = 3)"
proof -
  have h1: "(fst node_abc, snd node_abc) \<in> set (nodes \<lparr>nodes = [node_abc], edges = []\<rparr>)"
    by simp
  have h2: "node_classification (fst node_abc) (snd node_abc) = ''a'' @ ''/'' @ ''b'' @ ''/'' @ ''c''"
    by (simp add: node_abc_def node_classification_def)
  have free: "CHR ''/'' \<notin> set ''a''" "CHR ''/'' \<notin> set ''b''" "CHR ''/'' \<notin> set ''c''"
    by simp_all
  have nc: "\<not> str_in (lower ''a'') (lower ''b'')" "\<not> str_in (lower ''b'') (lower ''a'')"
    "\<not> str_in (lower ''a'') (lower ''c'')" "\<not> str_in (lower ''c'') (lower ''a'')"
    "\<not> str_in (lower ''b'') (lower ''c'')" "\<not> str_in (lower ''c'') (lower ''b'')"
    by (simp_all add: eval_lower starts_with_def)
  from search_truncates_at_match [OF h1 h2 free nc, of Map.empty False] h2 nc
  show ?thesis by simp
qed

subsection \<open>The ancestor hierarchy\<close>

text \<open>The traversal only appends, and at most one path per remaining hop.\<close>

lemma traverse_extends:
  "\<exists>ext. traverse g current depth hierarchy visited = hierarchy @ ext
         \<and> length ext \<le> max_depth - depth"
proof (induction g current depth hierarchy visited rule: traverse.induct)
  case (1 g current depth hierarchy visited)
  show ?case
  proof (cases "current \<noteq> [] \<and> depth < max_depth")
    case False
    then show ?thesis by (subst traverse.simps) auto
  next
    case guard: True
    show ?thesis
    proof (cases "map_of (nodes g) current")
      case None
      with guard show ?thesis by (subst traverse.simps) auto
    next
      case (Some node_data)
      show ?thesis
      proof (cases "relations node_data ''is_a''")
        case None
        with guard Some show ?thesis by (subst traverse.simps) auto
      next
        case targets: (Some is_a_targets)
        show ?thesis
        proof (cases is_a_targets)
          case Nil
          with guard Some targets show ?thesis by (subst traverse.simps) auto
        next
          case (Cons tgt others)
          let ?tc = "case map_of (nodes g) tgt of None \<Rightarrow> tgt
                     | Some target_node \<Rightarrow> node_classification tgt target_node"
          show ?thesis
          proof (cases "?tc \<in> visited")
            case True
            from "1.IH"(2) [OF guard Some targets Cons refl] True
            obtain ext where "traverse g tgt (depth + 1) hierarchy visited = hierarchy @ ext"
              "length ext \<le> max_depth - (depth + 1)"
              by auto
            moreover have "traverse g current depth hierarchy visited
                = traverse g tgt (depth + 1) hierarchy visited"
              using guard Some targets Cons True by (subst traverse.simps) (simp add: Let_def)
            ultimately show ?thesis by auto
          next
            case False
            from "1.IH"(1) [OF guard Some targets Cons refl] False
            obtain ext where "traverse g tgt (depth + 1) (hierarchy @ [?tc]) (insert ?tc visited)
                = (hierarchy @ [?tc]) @ ext"
              "length ext \<le> max_depth - (depth + 1)"
              by auto
            moreover have "traverse g current depth hierarchy visited
                = traverse g tgt (depth + 1) (hierarchy @ [?tc]) (insert ?tc visited)"
              using guard Some targets Cons False by (subst traverse.simps) (simp add: Let_def)
            ultimately have "traverse g current depth hierarchy visited = hierarchy @ (?tc # ext)"
              and "length (?tc # ext) \<le> max_depth - depth"
              using guard by auto
            then show ?thesis by blast
          qed
        qed
      qed
    qed
  qed
qed

lemma get_parent_hierarchy_uncached:
  assumes "cache cp = None"
  shows "fst (get_parent_hierarchy g cache cp) = fst (get_parent_hierarchy g Map.empty cp)"
    and "snd (get_parent_hierarchy g cache cp) = cache
         \<or> snd (get_parent_hierarchy g cache cp)
            = cache(cp \<mapsto> fst (get_parent_hierarchy g Map.empty cp))"
  using assms by (auto simp: get_parent_hierarchy_def Let_def split: option.splits)

lemma get_parent_hierarchy_valid:
  assumes "valid_cache g cache"
  shows "fst (get_parent_hierarchy g cache cp) = fst (get_parent_hierarchy g Map.empty cp)"
    and "valid_cache g (snd (get_parent_hierarchy g cache cp))"
proof -
  show "fst (get_parent_hierarchy g cache cp) = fst (get_parent_hierarchy g Map.empty cp)"
  proof (cases "cache cp")
    case None
    then show ?thesis by (rule get_parent_hierarchy_uncached(1) [of cache cp g])
  next
    case (Some hierarchy)
    with assms have "hierarchy = fst (get_parent_hierarchy g Map.empty cp)"
      by (simp add: valid_cache_def)
    with Some show ?thesis by (simp add: get_parent_hierarchy_def)
  qed
  show "valid_cache g (snd (get_parent_hierarchy g cache cp))"
  proof (cases "cache cp")
    case None
    from get_parent_hierarchy_uncached(2) [of cache cp g, OF None] assms
    show ?thesis by (auto simp: valid_cache_def split: if_splits)
  next
    case (Some hierarchy)
    with assms show ?thesis by (simp add: get_parent_hierarchy_def)
  qed
qed

lemma valid_cache_empty: "valid_cache g Map.empty"
  by (simp add: valid_cache_def)

lemma get_parent_hierarchy_traversal:
  assumes "find_search_path g cp = Some search_path" and "search_path \<noteq> []"
  shows "fst (get_parent_hierarchy g Map.empty cp) = traverse g search_path 0 [cp] {cp}"
  using assms by (simp add: get_parent_hierarchy_def Let_def)

text \<open>
  Claim C8, amended. \<^verbatim>\<open>get_parent_hierarchy\<close> is a total function: the traversal loop is
  defined with a termination proof (the number of hops left decreases) and the lexical
  fallback runs over a finite range. When the path is the classification path of a node
  with a non-empty id and the cache is valid (it is on a new search object, and every call
  keeps it so), the result is the path itself followed by at most 10 ancestors. The traversal
  stops after 10 hops, and earlier at a root: a name that is not a node, or a node without
  an \<open>is_a\<close> target. At a target whose classification path was visited already it does not
  stop: the path is not appended again and the traversal goes on from the target.
\<close>

theorem get_parent_hierarchy_hop_bounded:
  assumes "valid_cache g cache" and "find_search_path g cp = Some search_path"
    and "search_path \<noteq> []"
  shows "(\<exists>ancestors. fst (get_parent_hierarchy g cache cp) = cp # ancestors
            \<and> length ancestors \<le> 10)
       \<and> valid_cache g (snd (get_parent_hierarchy g cache cp))
       \<and> traverse g current 10 hierarchy visited = hierarchy
       \<and> (map_of (nodes g) current = None \<longrightarrow> traverse g current depth hierarchy visited = hierarchy)
       \<and> (\<forall>node_data. map_of (nodes g) current = Some node_data
             \<and> (relations node_data ''is_a'' = None \<or> relations node_data ''is_a'' = Some [])
            \<longrightarrow> traverse g current depth hierarchy visited = hierarchy)
       \<and> (\<forall>node_data tgt others. current \<noteq> [] \<and> depth < 10
             \<and> map_of (nodes g) current = Some node_data
             \<and> relations node_data ''is_a'' = Some (tgt # others)
             \<and> (case map_of (nodes g) tgt of None \<Rightarrow> tgt
                 | Some target_node \<Rightarrow> node_classification tgt target_node) \<in> visited
            \<longrightarrow> traverse g current depth hierarchy visited
                  = traverse g tgt (depth + 1) hierarchy visited)"
proof (intro conjI allI impI)
  from traverse_extends [of g search_path 0 "[cp]" "{cp}"]
  obtain ext where "traverse g search_path 0 [cp] {cp} = [cp] @ ext"
    and "length ext \<le> max_depth - 0"
    by blast
  then show "\<exists>ancestors. fst (get_parent_hierarchy g cache cp) = cp # ancestors
            \<and> length ancestors \<le> 10"
    using get_parent_hierarchy_valid(1) [OF assms(1), of cp]
      get_parent_hierarchy_traversal [OF assms(2,3)]
    by (simp add: max_depth_def)
  show "valid_cache g (snd (get_parent_hierarchy g cache cp))"
    using assms(1) by (rule get_parent_hierarchy_valid)
  show "traverse g current 10 hierarchy visited = hierarchy"
    by (subst traverse.simps) (simp add: max_depth_def)
next
  assume "map_of (nodes g) current = None"
  then show "traverse g current depth hierarchy visited = hierarchy"
    by (subst traverse.simps) simp
next
  fix node_data
  assume "map_of (nodes g) current = Some node_data
             \<and> (relations node_data ''is_a'' = None \<or> relations node_data ''is_a'' = Some [])"
  then show "traverse g current depth hierarchy visited = hierarchy"
    by (subst traverse.simps) auto
next
  fix node_data tgt others
  assume "current \<noteq> [] \<and> depth < 10
             \<and> map_of (nodes g) current = Some node_data
             \<and> relations node_data ''is_a'' = Some (tgt # others)
             \<and> (case map_of (nodes g) tgt of None \<Rightarrow> tgt
                 | Some target_node \<Rightarrow> node_classification tgt target_node) \<in> visited"
  then show "traverse g current depth hierarchy visited
                  = traverse g tgt (depth + 1) hierarchy visited"
    by (subst traverse.simps) (simp add: max_depth_def Let_def)
qed

text \<open>The definitions that evaluate a hierarchy query on a concrete graph.\<close>

lemmas eval_hierarchy_defs = get_parent_hierarchy_def find_search_path_def chain_node_def
  node_classification_def max_depth_def Let_def

lemma chain12_hierarchy:
  "fst (get_parent_hierarchy chain12 Map.empty ''p00'') =
     [''p00'', ''p01'', ''p02'', ''p03'', ''p04'', ''p05'', ''p06'', ''p07'', ''p08'', ''p09'',
      ''p10'']"
  by (simp add: chain12_def eval_hierarchy_defs traverse.simps)

text \<open>
  On the chain of twelve nodes the query for the most specific path returns the path and
  its first ten ancestors; the eleventh, \<open>p11\<close>, is cut off by the hop cap.
\<close>

theorem get_parent_hierarchy_hop_bounded_witness:
  "valid_cache chain12 Map.empty \<and> find_search_path chain12 ''p00'' = Some ''n00''
   \<and> ''n00'' \<noteq> []
   \<and> fst (get_parent_hierarchy chain12 Map.empty ''p00'') =
       ''p00'' # [''p01'', ''p02'', ''p03'', ''p04'', ''p05'', ''p06'', ''p07'', ''p08'', ''p09'',
                 ''p10'']
   \<and> (\<exists>ancestors. fst (get_parent_hierarchy chain12 Map.empty ''p00'') = ''p00'' # ancestors
         \<and> length ancestors \<le> 10)"
proof -
  have h2: "find_search_path chain12 ''p00'' = Some ''n00''"
    by (simp add: chain12_def find_search_path_def chain_node_def)
  have h3: "''n00'' \<noteq> []" by simp
  from get_parent_hierarchy_hop_bounded [OF valid_cache_empty h2 h3]
  have "\<exists>ancestors. fst (get_parent_hierarchy chain12 Map.empty ''p00'') = ''p00'' # ancestors
         \<and> length ancestors \<le> 10"
    by blast
  with valid_cache_empty h2 chain12_hierarchy show ?thesis by simp
qed

text \<open>
  The query for \<open>p\<close> starts at \<open>n0\<close>. Its target \<open>n1\<close> has the classification path
  \<open>p\<close>, which is visited already, and the traversal still goes on to \<open>n2\<close> and appends
  \<open>q\<close>.
\<close>

theorem traversal_continues_counterexample:
  "find_search_path shared_path_graph ''p'' = Some ''n0''
   \<and> map_of (nodes shared_path_graph) ''n0'' = Some (snd (chain_node ''n0'' ''p'' [''n1'']))
   \<and> map_of (nodes shared_path_graph) ''n1'' = Some (snd (chain_node ''n1'' ''p'' [''n2'']))
   \<and> fst (get_parent_hierarchy shared_path_graph Map.empty ''p'') = [''p'', ''q'']"
  by (simp add: shared_path_graph_def eval_hierarchy_defs traverse.simps)

end
